theory Spec2Isabelle
  imports Main "HOL-Library.Sublist" "HOL-Library.Word" "HOL-Library.Char_ord"
    "HOL-Library.List_Lexorder"
begin

section \<open>Data model\<close>

text \<open>
  The queue lives in two SQL tables (worker/schema.sql):
  \<^verbatim>\<open>tasks (id INTEGER PRIMARY KEY AUTOINCREMENT, tag TEXT, task TEXT, status TEXT)\<close> and
  \<^verbatim>\<open>logs (id INTEGER PRIMARY KEY, task_id INTEGER REFERENCES tasks(id) ON DELETE CASCADE, log TEXT)\<close>.

  The \<open>task\<close> column holds \<open>JSON.stringify({command, exitCode, lastHeartbeat})\<close>. Every
  reader parses it back with \<open>JSON.parse\<close>, so the model stores the parsed object; JSON
  \<open>null\<close> is \<open>None\<close>. A heartbeat is \<open>new Date().toISOString()\<close>, read back with
  \<open>new Date(...).getTime()\<close>: the model keeps the milliseconds. The \<open>status\<close> column is
  text and stays a string.
\<close>

record task_data =
  command :: "string list"
  exitCode :: "int option"
  lastHeartbeat :: "int option"

record task_row =
  row_id :: int
  tag :: string
  task :: task_data
  status :: string

text \<open>
  An entry of the runner's output buffer is \<open>{type, data}\<close> with \<open>data\<close> in base64; the
  \<open>log\<close> column holds \<open>JSON.stringify({timestamp, entries})\<close>, again stored parsed.
\<close>

record log_entry =
  entry_type :: string
  data :: string

record log_chunk =
  timestamp :: int
  entries :: "log_entry list"

record log_row =
  log_id :: int
  task_id :: int
  log :: log_chunk

text \<open>
  A table is the list of its rows in rowid order, which is the order in which SQLite
  visits the rows of a rowid table (and of an index on another column, among rows equal
  on that column). \<open>tasks_seq\<close> is the AUTOINCREMENT counter of \<open>tasks\<close> (the largest id
  ever handed out).
\<close>

record store =
  tasks :: "task_row list"
  tasks_seq :: int
  logs :: "log_row list"

definition empty_store :: store where
  "empty_store = \<lparr>tasks = [], tasks_seq = 0, logs = []\<rparr>"

section \<open>HTTP responses of the worker\<close>

datatype body =
    JTask task_row
  | JNull
  | JTasks "task_row list"
  | JStrings "string list"
  | JLogs "log_chunk list"
  | JNumber nat
  | JOk
  | JText string
  | JZodErrors

record response =
  code :: nat
  payload :: body

definition Response :: "body \<Rightarrow> nat \<Rightarrow> response" where
  "Response b c = \<lparr>code = c, payload = b\<rparr>"

section \<open>The worker's routes (worker/index.ts)\<close>

text \<open>
  Each route is a function from the store to the response and the new store. Requests
  are taken as they reach the router: over HTTPS and past the basic-auth check, with a
  body of the right JSON types.

  The server-side schema \<open>taskSchema\<close> accepts \<open>{tag, task, status}\<close> with
  \<open>status\<close> one of the three enum strings; other keys of the body (the client sends
  \<open>id\<close> too) are dropped by zod.
\<close>

definition status_enum :: "string \<Rightarrow> bool" where
  "status_enum st = (st = ''pending'' \<or> st = ''running'' \<or> st = ''done'')"

text \<open>\<open>POST /tasks\<close>: validate, insert, read the new row back with \<open>first()\<close>.\<close>

definition post_task :: "string \<Rightarrow> task_data \<Rightarrow> string \<Rightarrow> store \<Rightarrow> response \<times> store" where
  "post_task tg td st s =
     (if \<not> status_enum st then (Response JZodErrors 400, s)
      else let new_id = tasks_seq s + 1;
               r = \<lparr>row_id = new_id, tag = tg, task = td, status = st\<rparr>
           in (Response (JTask r) 201, s\<lparr>tasks := tasks s @ [r], tasks_seq := new_id\<rparr>))"

text \<open>
  \<open>SELECT * FROM tasks WHERE tag = ? AND status = "pending" ORDER BY id LIMIT 1\<close>,
  read with \<open>first()\<close>: the matching rows, sorted by id, and the first of them or null.
\<close>

definition first_row :: "'a list \<Rightarrow> 'a option" where
  "first_row xs = (case xs of [] \<Rightarrow> None | x # _ \<Rightarrow> Some x)"

definition select_pending :: "string \<Rightarrow> store \<Rightarrow> task_row option" where
  "select_pending tg s =
     first_row (sort_key row_id (filter (\<lambda>r. tag r = tg \<and> status r = ''pending'') (tasks s)))"

text \<open>
  \<open>UPDATE tasks SET status = "running" WHERE id = ? AND status = "pending"\<close>; the flag is
  \<open>meta.changed_db\<close>: whether the statement changed a row.
\<close>

definition update_running :: "int \<Rightarrow> store \<Rightarrow> bool \<times> store" where
  "update_running i s =
     (list_ex (\<lambda>r. row_id r = i \<and> status r = ''pending'') (tasks s),
      s\<lparr>tasks := map (\<lambda>r. if row_id r = i \<and> status r = ''pending''
                             then r\<lparr>status := ''running''\<rparr> else r) (tasks s)\<rparr>)"

text \<open>
  \<open>POST /tasks/start/:tag\<close>. The handler awaits the SELECT and then the UPDATE; the two
  statements are two steps, between which other requests can run. \<open>start_finish\<close> is the
  part of the handler after the SELECT has returned \<open>t\<close>; the response carries \<open>t\<close> as it
  was read.
\<close>

definition start_finish :: "task_row option \<Rightarrow> store \<Rightarrow> response \<times> store" where
  "start_finish t s =
     (case t of
        None \<Rightarrow> (Response JNull 200, s)
      | Some r \<Rightarrow>
          (let (changed_db, s') = update_running (row_id r) s
           in if \<not> changed_db then (Response (JText ''Task status was already changed'') 409, s')
              else (Response (JTask r) 200, s')))"

definition start_task :: "string \<Rightarrow> store \<Rightarrow> response \<times> store" where
  "start_task tg s = start_finish (select_pending tg s) s"

text \<open>\<open>GET /tasks/:id\<close>: the rows of \<open>all()\<close>, an array.\<close>

definition get_task :: "int \<Rightarrow> store \<Rightarrow> response \<times> store" where
  "get_task i s = (Response (JTasks (filter (\<lambda>r. row_id r = i) (tasks s))) 200, s)"

text \<open>\<open>PUT /tasks/:id\<close>: validate, then overwrite tag, task and status of the row.\<close>

definition put_task :: "int \<Rightarrow> string \<Rightarrow> task_data \<Rightarrow> string \<Rightarrow> store \<Rightarrow> response \<times> store" where
  "put_task i tg td st s =
     (if \<not> status_enum st then (Response JZodErrors 400, s)
      else (Response JOk 200,
            s\<lparr>tasks := map (\<lambda>r. if row_id r = i then r\<lparr>tag := tg, task := td, status := st\<rparr> else r)
                           (tasks s)\<rparr>))"

text \<open>
  \<open>DELETE\<close> routes. Deleting a task deletes its logs (ON DELETE CASCADE; D1 enforces
  foreign keys). The bulk routes answer with \<open>meta.changes\<close>, in which D1 counts the
  deleted tasks and the log rows the cascade deleted with them.
\<close>

definition delete_where :: "(task_row \<Rightarrow> bool) \<Rightarrow> store \<Rightarrow> nat \<times> store" where
  "delete_where P s =
     (let deleted = filter P (tasks s);
          cascaded = filter (\<lambda>l. task_id l \<in> row_id ` set deleted) (logs s)
      in (length deleted + length cascaded,
          s\<lparr>tasks := filter (\<lambda>r. \<not> P r) (tasks s),
            logs := filter (\<lambda>l. task_id l \<notin> row_id ` set deleted) (logs s)\<rparr>))"

definition delete_bulk :: "(task_row \<Rightarrow> bool) \<Rightarrow> store \<Rightarrow> response \<times> store" where
  "delete_bulk P s = (let (n, s') = delete_where P s in (Response (JNumber n) 200, s'))"

definition delete_task :: "int \<Rightarrow> store \<Rightarrow> response \<times> store" where
  "delete_task i s = (Response JOk 200, snd (delete_where (\<lambda>r. row_id r = i) s))"

text \<open>
  \<open>POST /logs\<close>: \<open>INSERT INTO logs (task_id, log)\<close>. The new id is one more than the
  largest id in the table (1 in an empty table). An insert for a task that does not
  exist violates the foreign key: the statement throws and the request fails.
\<close>

primrec max_id :: "int list \<Rightarrow> int" where
  "max_id [] = 0"
| "max_id (x # xs) = max x (max_id xs)"

definition post_log :: "int \<Rightarrow> log_chunk \<Rightarrow> store \<Rightarrow> response \<times> store" where
  "post_log tid l s =
     (if tid \<notin> row_id ` set (tasks s) then (Response (JText ''Internal Server Error'') 500, s)
      else (Response JOk 201,
            s\<lparr>logs := logs s @ [\<lparr>log_id = max_id (map log_id (logs s)) + 1, task_id = tid, log = l\<rparr>]\<rparr>))"

text \<open>\<open>GET /logs/:task_id\<close>: \<open>SELECT * FROM logs WHERE task_id = ?\<close>, then the \<open>log\<close> column of each row.\<close>

definition select_logs :: "int \<Rightarrow> store \<Rightarrow> log_row list" where
  "select_logs tid s = filter (\<lambda>l. task_id l = tid) (logs s)"

definition get_logs :: "int \<Rightarrow> store \<Rightarrow> response \<times> store" where
  "get_logs tid s = (Response (JLogs (map log (select_logs tid s))) 200, s)"

text \<open>
  The list routes: \<open>GET /tags\<close>, \<open>GET /tasks\<close>, \<open>GET /tasks/tag/:tag\<close>.
  \<open>SELECT DISTINCT tag\<close> is answered from the index on \<open>tag\<close>: each tag once, in the
  order of the index, which compares the texts byte by byte.
\<close>

definition get_tags :: "store \<Rightarrow> response \<times> store" where
  "get_tags s = (Response (JStrings (sort (remdups (map tag (tasks s))))) 200, s)"

definition get_tasks :: "store \<Rightarrow> response \<times> store" where
  "get_tasks s = (Response (JTasks (tasks s)) 200, s)"

definition get_tasks_tag :: "string \<Rightarrow> store \<Rightarrow> response \<times> store" where
  "get_tasks_tag tg s = (Response (JTasks (filter (\<lambda>r. tag r = tg) (tasks s))) 200, s)"

text \<open>The router: every request the worker serves, and a sequence of them from a store.\<close>

datatype http_request =
    GetTags
  | GetTasks
  | PostTask string task_data string
  | DeleteTasks
  | DeleteCompleted
  | GetTasksTag string
  | DeleteTag string
  | DeleteTagCompleted string
  | StartTask string
  | GetTask int
  | PutTask int string task_data string
  | DeleteTask int
  | PostLog int log_chunk
  | GetLogs int

definition route :: "http_request \<Rightarrow> store \<Rightarrow> response \<times> store" where
  "route req s =
     (case req of
        GetTags \<Rightarrow> get_tags s
      | GetTasks \<Rightarrow> get_tasks s
      | PostTask tg td st \<Rightarrow> post_task tg td st s
      | DeleteTasks \<Rightarrow> delete_bulk (\<lambda>r. True) s
      | DeleteCompleted \<Rightarrow> delete_bulk (\<lambda>r. status r = ''done'') s
      | GetTasksTag tg \<Rightarrow> get_tasks_tag tg s
      | DeleteTag tg \<Rightarrow> delete_bulk (\<lambda>r. tag r = tg) s
      | DeleteTagCompleted tg \<Rightarrow> delete_bulk (\<lambda>r. tag r = tg \<and> status r = ''done'') s
      | StartTask tg \<Rightarrow> start_task tg s
      | GetTask i \<Rightarrow> get_task i s
      | PutTask i tg td st \<Rightarrow> put_task i tg td st s
      | DeleteTask i \<Rightarrow> delete_task i s
      | PostLog tid l \<Rightarrow> post_log tid l s
      | GetLogs tid \<Rightarrow> get_logs tid s)"

definition serve :: "http_request list \<Rightarrow> store \<Rightarrow> store" where
  "serve reqs s = fold (\<lambda>req s'. snd (route req s')) reqs s"

text \<open>The rows of \<open>logs\<close> are in strictly ascending order of their ids.\<close>

definition logs_ascending :: "store \<Rightarrow> bool" where
  "logs_ascending s = sorted_wrt (<) (map log_id (logs s))"

section \<open>The client (src/index.ts, class WorkerClient)\<close>

text \<open>
  \<open>request\<close> throws a \<open>ResponseError\<close> with the response's status when the response is
  not ok (status outside 200..299), and one with status 500 and message "Response parsing
  failed" when the body does not match the schema; \<open>fetch\<close> itself rejects when the
  worker cannot be reached. \<open>net\<close> says whether the request reaches the worker and its
  response comes back.
\<close>

datatype client_error =
    FetchFailed
  | RequestFailed nat
  | ParsingFailed

definition parse_response :: "(body \<Rightarrow> 'a option) \<Rightarrow> response \<Rightarrow> client_error + 'a" where
  "parse_response schema resp =
     (if \<not> (200 \<le> code resp \<and> code resp \<le> 299) then Inl (RequestFailed (code resp))
      else case schema (payload resp) of None \<Rightarrow> Inl ParsingFailed | Some v \<Rightarrow> Inr v)"

definition request :: "(body \<Rightarrow> 'a option) \<Rightarrow> bool \<Rightarrow> (store \<Rightarrow> response \<times> store) \<Rightarrow> store
    \<Rightarrow> (client_error + 'a) \<times> store" where
  "request schema net handler s =
     (if \<not> net then (Inl FetchFailed, s)
      else let (resp, s') = handler s in (parse_response schema resp, s'))"

text \<open>The zod schemas: an object is not an array, and \<open>null\<close> only matches the literal.\<close>

definition taskSchema :: "body \<Rightarrow> task_row option" where
  "taskSchema b = (case b of JTask r \<Rightarrow> Some r | _ \<Rightarrow> None)"

definition taskOrNull :: "body \<Rightarrow> task_row option option" where
  "taskOrNull b = (case b of JTask r \<Rightarrow> Some (Some r) | JNull \<Rightarrow> Some None | _ \<Rightarrow> None)"

definition okSchema :: "body \<Rightarrow> unit option" where
  "okSchema b = (case b of JOk \<Rightarrow> Some () | _ \<Rightarrow> None)"

definition logsSchema :: "body \<Rightarrow> log_chunk list option" where
  "logsSchema b = (case b of JLogs ls \<Rightarrow> Some ls | _ \<Rightarrow> None)"

definition createTask :: "bool \<Rightarrow> string \<Rightarrow> task_data \<Rightarrow> string \<Rightarrow> store
    \<Rightarrow> (client_error + task_row) \<times> store" where
  "createTask net tg td st = request taskSchema net (post_task tg td st)"

text \<open>
  \<open>startNextTask\<close> puts the tag as it is into the path of the URL,
  \<open>/tasks/start/${tag}\<close>. The URL parser rewrites that path (it percent-encodes a
  space, ends the path at \<open>?\<close> or \<open>#\<close>, splits at \<open>/\<close>, and so on), and the worker's
  router hands the handler the segment it finds there, undecoded. That platform function
  is the parameter \<open>param\<close>: from the client's tag to the \<open>:tag\<close> the handler receives,
  or \<open>None\<close> when the rewritten path no longer matches the route. No other POST route
  answers such a request (the two that take a body throw on the missing one, and the
  router returns nothing for the rest), so the worker fails with status 500.
\<close>

definition no_route :: "store \<Rightarrow> response \<times> store" where
  "no_route s = (Response (JText ''Internal Server Error'') 500, s)"

definition startNextTask :: "(string \<Rightarrow> string option) \<Rightarrow> bool \<Rightarrow> string \<Rightarrow> store
    \<Rightarrow> (client_error + task_row option) \<times> store" where
  "startNextTask param net tg =
     request taskOrNull net (case param tg of None \<Rightarrow> no_route | Some p \<Rightarrow> start_task p)"

definition getTaskById :: "bool \<Rightarrow> int \<Rightarrow> store \<Rightarrow> (client_error + task_row) \<times> store" where
  "getTaskById net i = request taskSchema net (get_task i)"

definition updateTask :: "bool \<Rightarrow> task_row \<Rightarrow> store \<Rightarrow> (client_error + unit) \<times> store" where
  "updateTask net t = request okSchema net (put_task (row_id t) (tag t) (task t) (status t))"

definition deleteTask :: "bool \<Rightarrow> int \<Rightarrow> store \<Rightarrow> (client_error + unit) \<times> store" where
  "deleteTask net i = request okSchema net (delete_task i)"

definition appendLog :: "bool \<Rightarrow> int \<Rightarrow> log_chunk \<Rightarrow> store \<Rightarrow> (client_error + unit) \<times> store" where
  "appendLog net tid l = request okSchema net (post_log tid l)"

definition getLogs :: "bool \<Rightarrow> int \<Rightarrow> store \<Rightarrow> (client_error + log_chunk list) \<times> store" where
  "getLogs net tid = request logsSchema net (get_logs tid)"

section \<open>Concurrent claims\<close>

text \<open>
  Several \<open>POST /tasks/start/:tag\<close> requests in flight. Each handler is at its start
  (holding the tag), or between its SELECT and its UPDATE (holding the row it read, or
  null), or has answered. D1 runs one statement at a time, so an execution is a schedule:
  the list of the callers that take the next step.
\<close>

datatype caller = Start string | Selected "task_row option" | Finished response

definition caller_step :: "caller \<Rightarrow> store \<Rightarrow> caller \<times> store" where
  "caller_step c s =
     (case c of
        Start tg \<Rightarrow> (Selected (select_pending tg s), s)
      | Selected t \<Rightarrow> (let (resp, s') = start_finish t s in (Finished resp, s'))
      | Finished resp \<Rightarrow> (Finished resp, s))"

definition sched_step :: "nat \<Rightarrow> caller list \<times> store \<Rightarrow> caller list \<times> store" where
  "sched_step k cfg =
     (let (cs, s) = cfg
      in if k < length cs then (let (c', s') = caller_step (cs ! k) s in (cs[k := c'], s'))
         else (cs, s))"

definition run_schedule :: "nat list \<Rightarrow> caller list \<times> store \<Rightarrow> caller list \<times> store" where
  "run_schedule sched cfg = fold sched_step sched cfg"

text \<open>The store after the first \<open>n\<close> steps of a schedule.\<close>

definition store_at :: "nat list \<Rightarrow> caller list \<times> store \<Rightarrow> nat \<Rightarrow> store" where
  "store_at sched cfg n = snd (run_schedule (take n sched) cfg)"

text \<open>
  How a caller with tag \<open>tg\<close> came to its state in the course of a schedule: at the
  start it holds its tag; a row it holds is what its SELECT read from the store of some
  moment; an answer it gave is what the rest of the handler made of such a row on the
  store of a later moment.
\<close>

definition caller_hist :: "string \<Rightarrow> nat list \<Rightarrow> caller list \<times> store \<Rightarrow> caller \<Rightarrow> bool" where
  "caller_hist tg sched cfg c =
     (case c of
        Start tg' \<Rightarrow> tg' = tg
      | Selected t \<Rightarrow> \<exists>n\<le>length sched. t = select_pending tg (store_at sched cfg n)
      | Finished resp \<Rightarrow>
          \<exists>n m. n \<le> m \<and> m \<le> length sched \<and>
            resp = fst (start_finish (select_pending tg (store_at sched cfg n)) (store_at sched cfg m)))"

text \<open>Caller \<open>c\<close> has been answered 200 with the task of id \<open>i\<close>.\<close>

definition received :: "int \<Rightarrow> caller \<Rightarrow> bool" where
  "received i c =
     (case c of
        Finished resp \<Rightarrow> code resp = 200 \<and> (case payload resp of JTask t \<Rightarrow> row_id t = i | _ \<Rightarrow> False)
      | _ \<Rightarrow> False)"

text \<open>The store holds a pending row of id \<open>i\<close>.\<close>

definition pending_row :: "int \<Rightarrow> store \<Rightarrow> bool" where
  "pending_row i s = list_ex (\<lambda>r. row_id r = i \<and> status r = ''pending'') (tasks s)"

section \<open>Base64\<close>

text \<open>
  The runner encodes captured bytes with \<open>Buffer.from(data).toString('base64')\<close>; the
  web page decodes with \<open>atob\<close> (forgiving-base64: ASCII whitespace is dropped, padding
  is optional, anything else outside the alphabet or a length of 1 modulo 4 throws) and
  copies the code units of the binary string into a \<open>Uint8Array\<close>.
\<close>

type_synonym byte = "8 word"

definition b64chars :: string where
  "b64chars = ''ABCDEFGHIJKLMNOPQRSTUVWXYZabcdefghijklmnopqrstuvwxyz0123456789+/''"

fun toBase64_nat :: "nat list \<Rightarrow> string" where
  "toBase64_nat (a # b # c # rest) =
     [b64chars ! (a div 4), b64chars ! ((a mod 4) * 16 + b div 16),
      b64chars ! ((b mod 16) * 4 + c div 64), b64chars ! (c mod 64)] @ toBase64_nat rest"
| "toBase64_nat [a, b] =
     [b64chars ! (a div 4), b64chars ! ((a mod 4) * 16 + b div 16), b64chars ! ((b mod 16) * 4), CHR ''='']"
| "toBase64_nat [a] = [b64chars ! (a div 4), b64chars ! ((a mod 4) * 16), CHR ''='', CHR ''='']"
| "toBase64_nat [] = []"

definition toBase64 :: "byte list \<Rightarrow> string" where
  "toBase64 bs = toBase64_nat (map unat bs)"

fun index_of :: "'a \<Rightarrow> 'a list \<Rightarrow> nat option" where
  "index_of x [] = None"
| "index_of x (y # ys) = (if x = y then Some 0 else map_option Suc (index_of x ys))"

fun sextets :: "string \<Rightarrow> nat list option" where
  "sextets [] = Some []"
| "sextets (c # cs) =
     (case index_of c b64chars of
        None \<Rightarrow> None
      | Some n \<Rightarrow> map_option ((#) n) (sextets cs))"

fun octets :: "nat list \<Rightarrow> nat list" where
  "octets (a # b # c # d # rest) =
     [a * 4 + b div 16, (b mod 16) * 16 + c div 4, (c mod 4) * 64 + d] @ octets rest"
| "octets [a, b, c] = [a * 4 + b div 16, (b mod 16) * 16 + c div 4]"
| "octets [a, b] = [a * 4 + b div 16]"
| "octets _ = []"

definition ascii_whitespace :: "char \<Rightarrow> bool" where
  "ascii_whitespace c = (c \<in> set [CHR 0x09, CHR 0x0A, CHR 0x0C, CHR 0x0D, CHR 0x20])"

definition strip_padding :: "string \<Rightarrow> string" where
  "strip_padding d =
     (if length d mod 4 = 0 \<and> d \<noteq> [] \<and> last d = CHR ''=''
      then (if butlast d \<noteq> [] \<and> last (butlast d) = CHR ''='' then butlast (butlast d) else butlast d)
      else d)"

definition atob :: "string \<Rightarrow> nat list option" where
  "atob str =
     (let d = strip_padding (filter (\<lambda>c. \<not> ascii_whitespace c) str)
      in if length d mod 4 = 1 then None else map_option octets (sextets d))"

definition decodeBase64 :: "string \<Rightarrow> byte list option" where
  "decodeBase64 str = map_option (map of_nat) (atob str)"

section \<open>Log replay (worker/index.html)\<close>

text \<open>
  The terminal is the bytes written to it since its last reset. \<open>replayLogs\<close> resets it
  and writes the decoded entries of \<open>logs.slice(0, position)\<close>, chunk by chunk and entry by
  entry; an entry that \<open>atob\<close> rejects throws out of both \<open>forEach\<close> calls, after the
  writes so far.
\<close>

datatype dom_exception = InvalidCharacterError

fun write_entries :: "log_entry list \<Rightarrow> byte list \<Rightarrow> (dom_exception + unit) \<times> byte list" where
  "write_entries [] tty = (Inr (), tty)"
| "write_entries (e # es) tty =
     (case decodeBase64 (data e) of
        None \<Rightarrow> (Inl InvalidCharacterError, tty)
      | Some bs \<Rightarrow> write_entries es (tty @ bs))"

fun write_logs :: "log_chunk list \<Rightarrow> byte list \<Rightarrow> (dom_exception + unit) \<times> byte list" where
  "write_logs [] tty = (Inr (), tty)"
| "write_logs (l # ls) tty =
     (case write_entries (entries l) tty of
        (Inl e, tty') \<Rightarrow> (Inl e, tty')
      | (Inr _, tty') \<Rightarrow> write_logs ls tty')"

text \<open>\<open>xs.slice(0, end)\<close>: a negative end counts from the end of the array.\<close>

definition slice0 :: "int \<Rightarrow> 'a list \<Rightarrow> 'a list" where
  "slice0 e xs =
     take (nat (if e < 0 then max (int (length xs) + e) 0 else min e (int (length xs)))) xs"

definition replayLogs :: "byte list \<Rightarrow> log_chunk list \<Rightarrow> int \<Rightarrow> (dom_exception + unit) \<times> byte list" where
  "replayLogs tty chunks position = write_logs (slice0 position chunks) []"

text \<open>The bytes on the terminal after a replay.\<close>

definition replay :: "log_chunk list \<Rightarrow> int \<Rightarrow> byte list" where
  "replay chunks position = snd (replayLogs [] chunks position)"

section \<open>The runner (src/index.ts, runNextTask)\<close>

text \<open>
  The state of a running cycle: the local variables \<open>task\<close> (the record the claim
  returned), \<open>taskData\<close> (its parsed payload) and \<open>logs\<close> (the output buffer),
  whether the two interval timers are set, and whether the runner's process has ended.

  No promise of a run has a rejection handler: not the one of the un-awaited heartbeat
  update, not those of the timer and close callbacks, not the one \<open>execa\<close> returns for
  the child. Node ends the process on an unhandled rejection, so the runner ends as soon
  as a request of the run fails, or the child exits with anything but code 0.
\<close>

record runner =
  task_r :: task_row
  taskData :: task_data
  logs_r :: "log_entry list"
  timers :: bool
  exited :: bool

text \<open>
  \<open>config.preTask\<close>, each command already split into program and arguments. \<open>execa\<close>
  rejects when the command exits non-zero; \<open>exec\<close> says which commands succeed. The
  loop stops at the first command that fails; the result lists the commands that were run.
\<close>

record config =
  preTask :: "string list list option"
  defaultTag :: "string option"

fun run_preTask :: "(string list \<Rightarrow> bool) \<Rightarrow> string list list \<Rightarrow> bool \<times> string list list" where
  "run_preTask exec [] = (True, [])"
| "run_preTask exec (c # cs) =
     (if exec c then (let (ok, executed) = run_preTask exec cs in (ok, c # executed))
      else (False, [c]))"

datatype action = ClaimNext string | PreTask "string list" | Spawn "string list"

datatype run_error = ClientError client_error | ExecaError

text \<open>
  The start of a cycle, up to the \<open>return true\<close>: claim, then the pre-task commands,
  then the spawn. The result is the thrown error, or \<open>None\<close> for \<open>return false\<close>
  ("No tasks to run"), or the state of the started run; with it the actions in the order
  they happened, and the store.
\<close>

definition runNextTask :: "(string \<Rightarrow> string option) \<Rightarrow> config \<Rightarrow> (string list \<Rightarrow> bool) \<Rightarrow> bool
    \<Rightarrow> string \<Rightarrow> store \<Rightarrow> (run_error + runner option) \<times> action list \<times> store" where
  "runNextTask param cfg exec net tg s =
     (case startNextTask param net tg s of
        (Inl e, s') \<Rightarrow> (Inl (ClientError e), [ClaimNext tg], s')
      | (Inr None, s') \<Rightarrow> (Inr None, [ClaimNext tg], s')
      | (Inr (Some t), s') \<Rightarrow>
          (case run_preTask exec (case preTask cfg of None \<Rightarrow> [] | Some cs \<Rightarrow> cs) of
             (False, executed) \<Rightarrow> (Inl ExecaError, ClaimNext tg # map PreTask executed, s')
           | (True, executed) \<Rightarrow>
               (Inr (Some \<lparr>task_r = t, taskData = task t, logs_r = [], timers = True,
                            exited = False\<rparr>),
                ClaimNext tg # map PreTask executed @ [Spawn (command (task t))], s')))"

text \<open>
  \<open>sendLogs\<close>: with a non-empty buffer, build the chunk, empty the buffer
  (\<open>logs.length = 0\<close>), then await \<open>appendLog\<close>.
\<close>

definition sendLogs :: "int \<Rightarrow> bool \<Rightarrow> runner \<times> store \<Rightarrow> (client_error + unit) \<times> runner \<times> store" where
  "sendLogs now net rs =
     (let (r, s) = rs
      in if length (logs_r r) > 0
         then (let l = \<lparr>timestamp = now, entries = logs_r r\<rparr>;
                   r' = r\<lparr>logs_r := []\<rparr>;
                   (res, s') = appendLog net (row_id (task_r r)) l s
               in (res, r', s'))
         else (Inr (), r, s))"

text \<open>
  The heartbeat timer: stamp \<open>taskData.lastHeartbeat\<close> and send
  \<open>{...task, task: JSON.stringify(taskData)}\<close>; the promise is not awaited. When the
  update fails, the runner ends.
\<close>

definition heartbeat :: "int \<Rightarrow> bool \<Rightarrow> runner \<times> store \<Rightarrow> runner \<times> store" where
  "heartbeat now net rs =
     (let (r, s) = rs;
          r' = r\<lparr>taskData := (taskData r)\<lparr>lastHeartbeat := Some now\<rparr>\<rparr>;
          (res, s') = updateTask net ((task_r r')\<lparr>task := taskData r'\<rparr>) s
      in case res of
           Inl e \<Rightarrow> (r'\<lparr>exited := True\<rparr>, s')
         | Inr _ \<Rightarrow> (r', s'))"

text \<open>The log timer: \<open>sendLogs\<close>; when it throws, the runner ends.\<close>

definition log_tick :: "int \<Rightarrow> bool \<Rightarrow> runner \<times> store \<Rightarrow> runner \<times> store" where
  "log_tick now net rs =
     (let (res, r', s') = sendLogs now net rs
      in case res of
           Inl e \<Rightarrow> (r'\<lparr>exited := True\<rparr>, s')
         | Inr _ \<Rightarrow> (r', s'))"

text \<open>
  The \<open>close\<close> handler: clear both timers, flush what is buffered, then set
  \<open>taskData.exitCode\<close> and \<open>task.status\<close> and send the update. It gets that far only
  when the child exited with code 0: after any other exit code, and after a signal (the
  code is \<open>null\<close> then), the promise of \<open>execa\<close> rejects and the runner ends before
  the flush or the update reaches the worker. The runner also ends when the flush or the
  update fails.
\<close>

definition on_close :: "int option \<Rightarrow> int \<Rightarrow> bool \<Rightarrow> bool \<Rightarrow> runner \<times> store \<Rightarrow> runner \<times> store" where
  "on_close exit_code now net_log net_upd rs =
     (let (r, s) = rs;
          r0 = r\<lparr>timers := False\<rparr>
      in if exit_code \<noteq> Some 0 then (r0\<lparr>exited := True\<rparr>, s)
         else
           (let (flushed, r1, s1) = (if length (logs_r r0) > 0 then sendLogs now net_log (r0, s)
                                     else (Inr (), r0, s))
            in case flushed of
                 Inl e \<Rightarrow> (r1\<lparr>exited := True\<rparr>, s1)
               | Inr _ \<Rightarrow>
                   (let r2 = r1\<lparr>taskData := (taskData r1)\<lparr>exitCode := exit_code\<rparr>,
                               task_r := (task_r r1)\<lparr>status := ''done''\<rparr>\<rparr>;
                        (res, s2) = updateTask net_upd ((task_r r2)\<lparr>task := taskData r2\<rparr>) s1
                    in case res of
                         Inl e \<Rightarrow> (r2\<lparr>exited := True\<rparr>, s2)
                       | Inr _ \<Rightarrow> (r2, s2))))"

text \<open>
  What happens during a run, one event at a time (Node runs one callback at a time):
  output of the child on either stream, a tick of either timer (with the time and whether
  the request gets through), and the close of the child. A runner that has ended handles
  no event, and nothing of the run happens after the close.
\<close>

datatype event =
    Stdout "byte list"
  | Stderr "byte list"
  | HeartbeatTick int bool
  | LogTick int bool
  | Close "int option" int bool bool

definition on_event :: "event \<Rightarrow> runner \<times> store \<Rightarrow> runner \<times> store" where
  "on_event ev rs =
     (if exited (fst rs) then rs
      else case ev of
        Stdout bs \<Rightarrow>
          (fst rs\<lparr>logs_r := logs_r (fst rs) @ [\<lparr>entry_type = ''stdout'', data = toBase64 bs\<rparr>]\<rparr>, snd rs)
      | Stderr bs \<Rightarrow>
          (fst rs\<lparr>logs_r := logs_r (fst rs) @ [\<lparr>entry_type = ''stderr'', data = toBase64 bs\<rparr>]\<rparr>, snd rs)
      | HeartbeatTick now net \<Rightarrow> (if timers (fst rs) then heartbeat now net rs else rs)
      | LogTick now net \<Rightarrow> (if timers (fst rs) then log_tick now net rs else rs)
      | Close exit_code now net_log net_upd \<Rightarrow> on_close exit_code now net_log net_upd rs)"

fun run_events :: "event list \<Rightarrow> runner \<times> store \<Rightarrow> runner \<times> store" where
  "run_events [] rs = rs"
| "run_events (ev # evs) rs =
     (if exited (fst rs) then rs
      else case ev of
        Close exit_code now net_log net_upd \<Rightarrow> on_event ev rs
      | _ \<Rightarrow> run_events evs (on_event ev rs))"

definition is_close :: "event \<Rightarrow> bool" where
  "is_close ev = (case ev of Close exit_code now net_log net_upd \<Rightarrow> True | _ \<Rightarrow> False)"

text \<open>A whole cycle: the start, and if a run started, its events. The result is the store.\<close>

definition run_cycle :: "(string \<Rightarrow> string option) \<Rightarrow> config \<Rightarrow> (string list \<Rightarrow> bool) \<Rightarrow> bool
    \<Rightarrow> string \<Rightarrow> event list \<Rightarrow> store \<Rightarrow> store" where
  "run_cycle param cfg exec net tg evs s =
     (case runNextTask param cfg exec net tg s of
        (Inr (Some r), acts, s') \<Rightarrow> snd (run_events evs (r, s'))
      | (_, acts, s') \<Rightarrow> s')"

section \<open>Commands of the CLI and of the web page\<close>

text \<open>\<open>add\<close>: a new task is pending, with no exit code and no heartbeat.\<close>

definition add :: "bool \<Rightarrow> string \<Rightarrow> string list \<Rightarrow> store \<Rightarrow> (client_error + task_row) \<times> store" where
  "add net tg cmd =
     createTask net tg \<lparr>command = cmd, exitCode = None, lastHeartbeat = None\<rparr> ''pending''"

text \<open>
  \<open>requeue\<close>, for one id: read the task, set its status to pending and clear exit code
  and heartbeat, write it back.
\<close>

definition requeue :: "bool \<Rightarrow> int \<Rightarrow> store \<Rightarrow> (client_error + unit) \<times> store" where
  "requeue net i s =
     (case getTaskById net i s of
        (Inl e, s') \<Rightarrow> (Inl e, s')
      | (Inr t, s') \<Rightarrow>
          updateTask net (t\<lparr>status := ''pending'',
                           task := (task t)\<lparr>exitCode := None, lastHeartbeat := None\<rparr>\<rparr>) s')"

text \<open>
  The page's \<open>handleRequeue\<close> reads the same route with \<open>res.json()\<close> and no schema;
  \<open>JSON.parse(taskData.task)\<close> throws a SyntaxError when the body has no \<open>task\<close> field,
  as an array has none.
\<close>

datatype page_error = SyntaxError

definition handleRequeue :: "int \<Rightarrow> store \<Rightarrow> (page_error + unit) \<times> store" where
  "handleRequeue i s =
     (let (resp, s') = get_task i s
      in case payload resp of
           JTask t \<Rightarrow>
             (Inr (), snd (put_task i (tag t) ((task t)\<lparr>exitCode := None, lastHeartbeat := None\<rparr>)
                             ''pending'' s'))
         | _ \<Rightarrow> (Inl SyntaxError, s'))"

text \<open>
  \<open>list\<close> shows a task as stale when it has a heartbeat older than
  \<open>STALE_THRESHOLD_MS\<close>, whatever its status, and with its status otherwise.
\<close>

definition STALE_THRESHOLD_MS :: int where
  "STALE_THRESHOLD_MS = 60000"

definition list_status :: "int \<Rightarrow> task_row \<Rightarrow> string" where
  "list_status now r =
     (let isStale = (case lastHeartbeat (task r) of
                       None \<Rightarrow> False
                     | Some t \<Rightarrow> now - t > STALE_THRESHOLD_MS)
      in if isStale then ''stale'' else status r)"

text \<open>The row of a task in the store, if there is one.\<close>

definition find_task :: "int \<Rightarrow> store \<Rightarrow> task_row option" where
  "find_task i s = find (\<lambda>r. row_id r = i) (tasks s)"

section \<open>Example data\<close>

text \<open>
  The tag of the examples is \<open>t1\<close>, which the URL parser leaves as it is: where an
  example needs the \<open>:tag\<close> the handler receives, it is \<open>Some\<close> of the tag.
\<close>

definition echo_task :: task_row where
  "echo_task = \<lparr>row_id = 1, tag = ''t1'',
      task = \<lparr>command = [''echo'', ''hi''], exitCode = None, lastHeartbeat = None\<rparr>,
      status = ''pending''\<rparr>"

definition one_pending :: store where
  "one_pending = \<lparr>tasks = [echo_task], tasks_seq = 1, logs = []\<rparr>"




text \<open>A pending task that runs for 31 seconds, past the first heartbeat.\<close>

definition sleep_task :: task_row where
  "sleep_task = \<lparr>row_id = 1, tag = ''t1'',
      task = \<lparr>command = [''sleep'', ''31''], exitCode = None, lastHeartbeat = None\<rparr>,
      status = ''pending''\<rparr>"

definition one_sleeping :: store where
  "one_sleeping = \<lparr>tasks = [sleep_task], tasks_seq = 1, logs = []\<rparr>"

definition running_task :: task_row where
  "running_task = echo_task\<lparr>status := ''running''\<rparr>"

definition one_running :: store where
  "one_running = \<lparr>tasks = [running_task], tasks_seq = 1, logs = []\<rparr>"

definition done_task :: task_row where
  "done_task = echo_task\<lparr>status := ''done'',
      task := \<lparr>command = [''echo'', ''hi''], exitCode = Some 0, lastHeartbeat = None\<rparr>\<rparr>"

definition one_done :: store where
  "one_done = \<lparr>tasks = [done_task], tasks_seq = 1, logs = []\<rparr>"

text \<open>
  The runner that has just claimed the example task, and the same after it captured
  "hi" and a newline on stdout.
\<close>

definition fresh_runner :: runner where
  "fresh_runner = \<lparr>task_r = echo_task, taskData = task echo_task, logs_r = [], timers = True,
      exited = False\<rparr>"

definition hi_buffered :: runner where
  "hi_buffered = fresh_runner\<lparr>logs_r := [\<lparr>entry_type = ''stdout'', data = ''aGkK''\<rparr>]\<rparr>"

text \<open>The chunk a flush of that buffer stores, and a second chunk.\<close>

definition hi_chunk :: log_chunk where
  "hi_chunk = \<lparr>timestamp = 10000, entries = [\<lparr>entry_type = ''stdout'', data = ''aGkK''\<rparr>]\<rparr>"

definition bye_chunk :: log_chunk where
  "bye_chunk = \<lparr>timestamp = 20000, entries = [\<lparr>entry_type = ''stderr'', data = ''Ynll''\<rparr>]\<rparr>"

definition always_ok :: "string list \<Rightarrow> bool" where
  "always_ok c = True"

definition always_fail :: "string list \<Rightarrow> bool" where
  "always_fail c = False"

definition no_preTask :: config where
  "no_preTask = \<lparr>preTask = None, defaultTag = None\<rparr>"

definition git_pull :: config where
  "git_pull = \<lparr>preTask = Some [[''git'', ''pull'']], defaultTag = None\<rparr>"

section \<open>Selecting and claiming\<close>

lemma first_row_sort_key:
  assumes "first_row (sort_key f xs) = Some t"
  shows "t \<in> set xs \<and> (\<forall>x\<in>set xs. f t \<le> f x)"
proof -
  from assms obtain ys where ys: "sort_key f xs = t # ys"
    by (auto simp: first_row_def split: list.splits)
  have "set (sort_key f xs) = set xs" by simp
  with ys have mem: "t \<in> set xs" and sub: "set xs = insert t (set ys)" by auto
  have "sorted (map f (sort_key f xs))" by (rule sorted_sort_key)
  with ys have "\<forall>y\<in>set ys. f t \<le> f y" by simp
  with sub mem show ?thesis by auto
qed

lemma first_row_None: "first_row xs = None \<longleftrightarrow> xs = []"
  by (simp add: first_row_def split: list.splits)

lemma select_pending_Some:
  assumes "select_pending tg s = Some t"
  shows "t \<in> set (tasks s) \<and> tag t = tg \<and> status t = ''pending'' \<and>
         (\<forall>r\<in>set (tasks s). tag r = tg \<and> status r = ''pending'' \<longrightarrow> row_id t \<le> row_id r)"
  using first_row_sort_key [OF assms [unfolded select_pending_def]] by auto

lemma select_pending_None:
  "select_pending tg s = None \<longleftrightarrow> (\<forall>r\<in>set (tasks s). \<not> (tag r = tg \<and> status r = ''pending''))"
proof -
  let ?rows = "sort_key row_id (filter (\<lambda>r. tag r = tg \<and> status r = ''pending'') (tasks s))"
  have "select_pending tg s = None \<longleftrightarrow> ?rows = []"
    by (simp add: select_pending_def first_row_None)
  also have "\<dots> \<longleftrightarrow> set ?rows = {}"
    by (simp only: set_empty)
  also have "\<dots> \<longleftrightarrow> (\<forall>r\<in>set (tasks s). \<not> (tag r = tg \<and> status r = ''pending''))"
    by auto
  finally show ?thesis .
qed

lemma update_running_changed: "fst (update_running i s) = pending_row i s"
  by (simp add: update_running_def pending_row_def)

lemma update_running_noop:
  assumes "\<not> pending_row i s"
  shows "update_running i s = (False, s)"
proof -
  have "map (\<lambda>r. if row_id r = i \<and> status r = ''pending'' then r\<lparr>status := ''running''\<rparr> else r)
          (tasks s) = tasks s"
    using assms by (intro map_idI) (auto simp: pending_row_def list_ex_iff)
  then show ?thesis using assms by (simp add: update_running_def pending_row_def)
qed

lemma pending_row_update_running:
  "pending_row i (snd (update_running j s)) \<longleftrightarrow> i \<noteq> j \<and> pending_row i s"
  by (auto simp: pending_row_def update_running_def list_ex_iff)

lemma update_running_marks:
  assumes "t \<in> set (tasks s)" and "status t = ''pending''"
  shows "t\<lparr>status := ''running''\<rparr> \<in> set (tasks (snd (update_running (row_id t) s)))"
  using assms by (force simp: update_running_def)

lemma start_finish_cases:
  assumes "start_finish t s = (resp, s')"
  shows "(t = None \<and> resp = Response JNull 200 \<and> s' = s) \<or>
     (\<exists>r. t = Some r \<and> \<not> pending_row (row_id r) s \<and>
          resp = Response (JText ''Task status was already changed'') 409 \<and> s' = s) \<or>
     (\<exists>r. t = Some r \<and> pending_row (row_id r) s \<and> resp = Response (JTask r) 200 \<and>
          s' = snd (update_running (row_id r) s))"
proof (cases t)
  case None
  with assms show ?thesis by (simp add: start_finish_def)
next
  case (Some r)
  show ?thesis
  proof (cases "pending_row (row_id r) s")
    case True
    then have "fst (update_running (row_id r) s)" by (simp add: update_running_changed)
    with assms Some True show ?thesis
      by (auto simp: start_finish_def split: prod.splits)
  next
    case False
    from update_running_noop [OF False] assms Some False show ?thesis
      by (auto simp: start_finish_def)
  qed
qed

lemma start_task_claims:
  assumes "start_task tg s = (Response (JTask t) 200, s')"
  shows "select_pending tg s = Some t \<and> s' = snd (update_running (row_id t) s)"
  using start_finish_cases [OF assms [unfolded start_task_def]]
  by (auto simp: Response_def)

lemmas eval_claim = run_schedule_def sched_step_def caller_step_def select_pending_def
  start_finish_def update_running_def first_row_def Response_def one_pending_def echo_task_def
  start_task_def

section \<open>Exclusivity of concurrent claims\<close>

text \<open>
  The invariant of every schedule, for a task id \<open>i\<close>: at most one caller has received
  \<open>i\<close>, and none has while the store holds a pending row of id \<open>i\<close>.
\<close>

lemma received_simps [simp]:
  "\<not> received i (Start tg)"
  "\<not> received i (Selected t)"
  "received i (Finished resp) \<longleftrightarrow> code resp = 200 \<and> (\<exists>t. payload resp = JTask t \<and> row_id t = i)"
  by (auto simp: received_def split: body.splits)

lemma caller_step_excl:
  assumes inv1: "\<forall>j<length cs. \<forall>k<length cs. received i (cs ! j) \<and> received i (cs ! k) \<longrightarrow> j = k"
    and inv2: "pending_row i s \<longrightarrow> (\<forall>j<length cs. \<not> received i (cs ! j))"
    and k: "k < length cs"
    and st: "caller_step (cs ! k) s = (c', s')"
  shows "(\<forall>j<length cs. \<forall>l<length cs.
            received i (cs[k := c'] ! j) \<and> received i (cs[k := c'] ! l) \<longrightarrow> j = l) \<and>
         (pending_row i s' \<longrightarrow> (\<forall>j<length cs. \<not> received i (cs[k := c'] ! j)))"
proof (cases "cs ! k")
  case (Start tg)
  with st have "c' = Selected (select_pending tg s)" "s' = s" by (auto simp: caller_step_def)
  with inv1 inv2 k Start show ?thesis
    by (auto simp: nth_list_update)
next
  case (Finished resp)
  with st have "c' = cs ! k" "s' = s" by (auto simp: caller_step_def)
  with inv1 inv2 k show ?thesis by simp
next
  case (Selected t)
  with st obtain resp where sf: "start_finish t s = (resp, s')" and c': "c' = Finished resp"
    by (auto simp: caller_step_def split: prod.splits)
  from start_finish_cases [OF sf] show ?thesis
  proof (elim disjE exE conjE)
    assume "resp = Response JNull 200" "s' = s"
    with inv1 inv2 k Selected c' show ?thesis
      by (auto simp: nth_list_update Response_def)
  next
    fix r assume "resp = Response (JText ''Task status was already changed'') 409" "s' = s"
    with inv1 inv2 k Selected c' show ?thesis
      by (auto simp: nth_list_update Response_def)
  next
    fix r assume r: "t = Some r" "pending_row (row_id r) s" "resp = Response (JTask r) 200"
      "s' = snd (update_running (row_id r) s)"
    show ?thesis
    proof (cases "row_id r = i")
      case True
      with r inv2 have none: "\<forall>j<length cs. \<not> received i (cs ! j)" by simp
      have np: "\<not> pending_row i s'"
        using r True by (simp add: pending_row_update_running)
      from none k np c' r show ?thesis
        by (auto simp: nth_list_update split: if_splits)
    next
      case False
      then have nr: "\<not> received i c'" using c' r by (simp add: Response_def)
      have pp: "pending_row i s' \<longleftrightarrow> pending_row i s"
        using r False by (auto simp: pending_row_update_running)
      from inv1 inv2 k nr pp show ?thesis
        by (auto simp: nth_list_update split: if_splits)
    qed
  qed
qed

lemma run_schedule_excl:
  assumes "\<forall>j<length cs. \<forall>k<length cs. received i (cs ! j) \<and> received i (cs ! k) \<longrightarrow> j = k"
    and "pending_row i s \<longrightarrow> (\<forall>j<length cs. \<not> received i (cs ! j))"
    and "run_schedule sched (cs, s) = (cs', s')"
  shows "length cs' = length cs \<and>
         (\<forall>j<length cs'. \<forall>k<length cs'. received i (cs' ! j) \<and> received i (cs' ! k) \<longrightarrow> j = k) \<and>
         (pending_row i s' \<longrightarrow> (\<forall>j<length cs'. \<not> received i (cs' ! j)))"
  using assms
proof (induction sched arbitrary: cs s)
  case Nil
  then show ?case by (simp add: run_schedule_def)
next
  case (Cons k sched)
  show ?case
  proof (cases "k < length cs")
    case False
    then have "sched_step k (cs, s) = (cs, s)" by (simp add: sched_step_def)
    with Cons.prems(3) have "run_schedule sched (cs, s) = (cs', s')"
      by (simp add: run_schedule_def)
    from Cons.IH [OF Cons.prems(1,2) this] show ?thesis .
  next
    case True
    obtain c1 s1 where st: "caller_step (cs ! k) s = (c1, s1)"
      by (cases "caller_step (cs ! k) s")
    with True have step: "sched_step k (cs, s) = (cs[k := c1], s1)"
      by (simp add: sched_step_def)
    from caller_step_excl [OF Cons.prems(1,2) True st]
    have a: "\<forall>j<length (cs[k := c1]). \<forall>l<length (cs[k := c1]).
               received i (cs[k := c1] ! j) \<and> received i (cs[k := c1] ! l) \<longrightarrow> j = l"
      and b: "pending_row i s1 \<longrightarrow> (\<forall>j<length (cs[k := c1]). \<not> received i (cs[k := c1] ! j))"
      by simp_all
    from Cons.prems(3) step have "run_schedule sched (cs[k := c1], s1) = (cs', s')"
      by (simp add: run_schedule_def)
    from Cons.IH [OF a b this] show ?thesis by simp
  qed
qed

lemma race_run:
  "run_schedule [0, 1, 0, 1] (map Start [''t1'', ''t1''], one_pending) =
     ([Finished (Response (JTask echo_task) 200),
       Finished (Response (JText ''Task status was already changed'') 409)],
      one_pending\<lparr>tasks := [echo_task\<lparr>status := ''running''\<rparr>]\<rparr>)"
  by (simp add: eval_claim)

text \<open>
  C1. Callers of \<open>POST /tasks/start/:tag\<close>, with any tags, run against any store under
  any schedule of their statements: at most one of them is answered with the task of a
  given id. The transition is the one conditional UPDATE: on a store with no pending row
  of that id it changes nothing and reports no change.
\<close>

theorem claim_exclusive:
  "(\<forall>j k. j < length tgs \<and> k < length tgs \<and>
          received i (fst (run_schedule sched (map Start tgs, s)) ! j) \<and>
          received i (fst (run_schedule sched (map Start tgs, s)) ! k) \<longrightarrow> j = k) \<and>
   (\<not> pending_row i s \<longrightarrow> update_running i s = (False, s))"
proof -
  obtain cs' s' where run: "run_schedule sched (map Start tgs, s) = (cs', s')"
    by (cases "run_schedule sched (map Start tgs, s)")
  have "length cs' = length (map Start tgs) \<and>
        (\<forall>j<length cs'. \<forall>k<length cs'. received i (cs' ! j) \<and> received i (cs' ! k) \<longrightarrow> j = k) \<and>
        (pending_row i s' \<longrightarrow> (\<forall>j<length cs'. \<not> received i (cs' ! j)))"
    by (rule run_schedule_excl [OF _ _ run]) simp_all
  with run show ?thesis
    using update_running_noop by auto
qed

theorem claim_exclusive_witness:
  "received 1 (fst (run_schedule [0, 1, 0, 1] (map Start [''t1'', ''t1''], one_pending)) ! 0) \<and>
   \<not> received 1 (fst (run_schedule [0, 1, 0, 1] (map Start [''t1'', ''t1''], one_pending)) ! 1) \<and>
   \<not> pending_row 1 (snd (run_schedule [0, 1, 0, 1] (map Start [''t1'', ''t1''], one_pending))) \<and>
   update_running 1 (snd (run_schedule [0, 1, 0, 1] (map Start [''t1'', ''t1''], one_pending))) =
     (False, snd (run_schedule [0, 1, 0, 1] (map Start [''t1'', ''t1''], one_pending)))"
proof -
  let ?cfg = "run_schedule [0, 1, 0, 1] (map Start [''t1'', ''t1''], one_pending)"
  have r0: "received 1 (fst ?cfg ! 0)" and np: "\<not> pending_row 1 (snd ?cfg)"
    unfolding race_run by (simp_all add: Response_def pending_row_def echo_task_def)
  have "\<not> received 1 (fst ?cfg ! 1)"
    using claim_exclusive [of "[''t1'', ''t1'']" 1 "[0, 1, 0, 1]" one_pending] r0
    by (metis length_Cons less_Suc_eq list.size(3) zero_neq_one One_nat_def)
  moreover have "update_running 1 (snd ?cfg) = (False, snd ?cfg)"
    using claim_exclusive [of "[]" 1 "[]" "snd ?cfg"] np by blast
  ultimately show ?thesis using r0 np by blast
qed

section \<open>What a caller's answer says about its SELECT\<close>

lemma run_schedule_snoc:
  "run_schedule (sched @ [j]) cfg = sched_step j (run_schedule sched cfg)"
  by (simp add: run_schedule_def)

lemma store_at_snoc:
  "n \<le> length sched \<Longrightarrow> store_at (sched @ [j]) cfg n = store_at sched cfg n"
  by (simp add: store_at_def)

lemma store_at_end: "store_at sched cfg (length sched) = snd (run_schedule sched cfg)"
  by (simp add: store_at_def)

lemma caller_hist_later:
  assumes "caller_hist tg sched cfg c"
  shows "caller_hist tg (sched @ [j]) cfg c"
proof (cases c)
  case (Start tg')
  with assms show ?thesis by (simp add: caller_hist_def)
next
  case (Selected t)
  with assms obtain n where "n \<le> length sched" "t = select_pending tg (store_at sched cfg n)"
    by (auto simp: caller_hist_def)
  then have "n \<le> length (sched @ [j]) \<and> t = select_pending tg (store_at (sched @ [j]) cfg n)"
    by (simp add: store_at_snoc)
  with Selected show ?thesis unfolding caller_hist_def by auto
next
  case (Finished resp)
  with assms obtain n m where nm: "n \<le> m" "m \<le> length sched"
    and r: "resp = fst (start_finish (select_pending tg (store_at sched cfg n)) (store_at sched cfg m))"
    by (auto simp: caller_hist_def)
  from nm r have "n \<le> m \<and> m \<le> length (sched @ [j]) \<and>
      resp = fst (start_finish (select_pending tg (store_at (sched @ [j]) cfg n))
                    (store_at (sched @ [j]) cfg m))"
    by (simp add: store_at_snoc)
  with Finished show ?thesis unfolding caller_hist_def by auto
qed

lemma caller_hist_step:
  assumes h: "caller_hist tg sched cfg c"
    and st: "caller_step c (snd (run_schedule sched cfg)) = (c', s')"
  shows "caller_hist tg (sched @ [j]) cfg c'"
proof (cases c)
  case (Start tg')
  with h have tg: "tg' = tg" by (simp add: caller_hist_def)
  from st Start tg
  have c': "c' = Selected (select_pending tg (store_at (sched @ [j]) cfg (length sched)))"
    by (auto simp: caller_step_def store_at_snoc store_at_end)
  have "\<exists>n\<le>length (sched @ [j]).
          select_pending tg (store_at (sched @ [j]) cfg (length sched)) =
          select_pending tg (store_at (sched @ [j]) cfg n)"
    by (rule exI [of _ "length sched"]) simp
  with c' show ?thesis unfolding caller_hist_def by simp
next
  case (Selected t)
  with h obtain n where n: "n \<le> length sched" and t: "t = select_pending tg (store_at sched cfg n)"
    by (auto simp: caller_hist_def)
  from st Selected
  have "c' = Finished (fst (start_finish t (store_at sched cfg (length sched))))"
    by (auto simp: caller_step_def store_at_end split: prod.splits)
  with t n have c': "c' = Finished (fst (start_finish
        (select_pending tg (store_at (sched @ [j]) cfg n))
        (store_at (sched @ [j]) cfg (length sched))))"
    by (simp add: store_at_snoc)
  have "\<exists>n' m. n' \<le> m \<and> m \<le> length (sched @ [j]) \<and>
          fst (start_finish (select_pending tg (store_at (sched @ [j]) cfg n))
                 (store_at (sched @ [j]) cfg (length sched))) =
          fst (start_finish (select_pending tg (store_at (sched @ [j]) cfg n'))
                 (store_at (sched @ [j]) cfg m))"
    using n by (intro exI [of _ n] exI [of _ "length sched"]) simp
  with c' show ?thesis unfolding caller_hist_def by simp
next
  case (Finished resp)
  with st have "c' = c" by (simp add: caller_step_def)
  with caller_hist_later [OF h] show ?thesis by simp
qed

lemma caller_history:
  assumes k: "k < length tgs"
  shows "length (fst (run_schedule sched (map Start tgs, s0))) = length tgs \<and>
         caller_hist (tgs ! k) sched (map Start tgs, s0)
           (fst (run_schedule sched (map Start tgs, s0)) ! k)"
proof (induction sched rule: rev_induct)
  case Nil
  with k show ?case by (simp add: run_schedule_def caller_hist_def)
next
  case (snoc j sched)
  let ?init = "(map Start tgs, s0)"
  obtain cs s where run: "run_schedule sched ?init = (cs, s)"
    by (cases "run_schedule sched ?init")
  from snoc run have len: "length cs = length tgs"
    and h: "caller_hist (tgs ! k) sched ?init (cs ! k)" by simp_all
  show ?case
  proof (cases "j < length cs")
    case False
    then have "run_schedule (sched @ [j]) ?init = (cs, s)"
      by (simp add: run_schedule_snoc run sched_step_def)
    with len caller_hist_later [OF h] show ?thesis by simp
  next
    case True
    obtain c' s' where st: "caller_step (cs ! j) s = (c', s')" by (cases "caller_step (cs ! j) s")
    with True have step: "run_schedule (sched @ [j]) ?init = (cs[j := c'], s')"
      by (simp add: run_schedule_snoc run sched_step_def)
    show ?thesis
    proof (cases "j = k")
      case True
      from st run have "caller_step (cs ! k) (snd (run_schedule sched ?init)) = (c', s')"
        using True by simp
      from caller_hist_step [OF h this] show ?thesis
        using step len k True by simp
    next
      case False
      with step len caller_hist_later [OF h] show ?thesis by simp
    qed
  qed
qed

lemma null_answer: "parse_response taskOrNull (fst (start_finish t s)) = Inr None \<longleftrightarrow> t = None"
proof (cases t)
  case None
  then show ?thesis
    by (simp add: start_finish_def parse_response_def taskOrNull_def Response_def)
next
  case (Some r)
  then show ?thesis
    by (simp add: start_finish_def parse_response_def taskOrNull_def Response_def
        split: prod.splits)
qed



section \<open>Losing the race\<close>

text \<open>
  C5, as claimed, fails: with two callers racing for the one pending task, both read it
  and the second to write is answered 409, which the client throws as a
  \<open>ResponseError\<close>; on a store with no pending task the answer is 200 with \<open>null\<close>.
\<close>

theorem lost_race_counterexample:
  "fst (run_schedule [0, 1, 0, 1] (map Start [''t1'', ''t1''], one_pending)) ! 1 =
     Finished (Response (JText ''Task status was already changed'') 409) \<and>
   parse_response taskOrNull (Response (JText ''Task status was already changed'') 409) =
     Inl (RequestFailed 409) \<and>
   parse_response taskOrNull (fst (start_task ''t1'' empty_store)) = Inr None"
  unfolding race_run
  by (simp add: parse_response_def taskOrNull_def Response_def start_task_def start_finish_def
      select_pending_def first_row_def empty_store_def)

text \<open>
  C5, amended. A handler that finds its row no longer pending at write time leaves the
  store as it is and answers 409 "Task status was already changed", which
  \<open>startNextTask\<close> throws as a \<open>ResponseError\<close> of status 409. The client reads "no
  task" (200 with \<open>null\<close>) from a handler's answer exactly when the handler's SELECT
  returned no row, and the SELECT returns no row exactly when the store holds no pending
  task with the tag the handler received. So under any schedule of concurrent callers,
  a caller that reads "no task" ran its SELECT on a store with no pending task of its tag.
\<close>

theorem lost_race_conflict:
  "(\<not> pending_row (row_id r) s \<longrightarrow>
      start_finish (Some r) s = (Response (JText ''Task status was already changed'') 409, s) \<and>
      parse_response taskOrNull (fst (start_finish (Some r) s)) = Inl (RequestFailed 409)) \<and>
   ((parse_response taskOrNull (fst (start_finish t s)) = Inr None) = (t = None)) \<and>
   ((select_pending tg s = None) =
      (\<forall>x\<in>set (tasks s). \<not> (tag x = tg \<and> status x = ''pending''))) \<and>
   (\<forall>k resp. k < length tgs \<and>
        fst (run_schedule sched (map Start tgs, s0)) ! k = Finished resp \<and>
        parse_response taskOrNull resp = Inr None \<longrightarrow>
        (\<exists>n\<le>length sched.
           \<forall>x\<in>set (tasks (store_at sched (map Start tgs, s0) n)).
             \<not> (tag x = tgs ! k \<and> status x = ''pending'')))"
proof (intro conjI impI allI)
  assume np: "\<not> pending_row (row_id r) s"
  from update_running_noop [OF np]
  show c: "start_finish (Some r) s = (Response (JText ''Task status was already changed'') 409, s)"
    by (simp add: start_finish_def)
  show "parse_response taskOrNull (fst (start_finish (Some r) s)) = Inl (RequestFailed 409)"
    by (simp add: c parse_response_def Response_def)
next
  show "(parse_response taskOrNull (fst (start_finish t s)) = Inr None) = (t = None)"
    by (rule null_answer)
next
  show "(select_pending tg s = None) =
      (\<forall>x\<in>set (tasks s). \<not> (tag x = tg \<and> status x = ''pending''))"
    by (rule select_pending_None)
next
  fix k resp
  assume a: "k < length tgs \<and>
        fst (run_schedule sched (map Start tgs, s0)) ! k = Finished resp \<and>
        parse_response taskOrNull resp = Inr None"
  then have k: "k < length tgs" by simp
  from caller_history [OF k, of sched s0] a
  obtain n m where n: "n \<le> m" "m \<le> length sched"
    and r: "resp = fst (start_finish (select_pending (tgs ! k) (store_at sched (map Start tgs, s0) n))
                          (store_at sched (map Start tgs, s0) m))"
    by (auto simp: caller_hist_def)
  from a r have "select_pending (tgs ! k) (store_at sched (map Start tgs, s0) n) = None"
    by (simp add: null_answer)
  then have "\<forall>x\<in>set (tasks (store_at sched (map Start tgs, s0) n)).
             \<not> (tag x = tgs ! k \<and> status x = ''pending'')"
    by (simp add: select_pending_None)
  with n show "\<exists>n\<le>length sched.
           \<forall>x\<in>set (tasks (store_at sched (map Start tgs, s0) n)).
             \<not> (tag x = tgs ! k \<and> status x = ''pending'')"
    by (meson le_trans)
qed

lemma alone_on_empty:
  "run_schedule [0, 0] (map Start [''t1''], empty_store) =
     ([Finished (Response JNull 200)], empty_store)"
  by (simp add: run_schedule_def sched_step_def caller_step_def select_pending_def
      start_finish_def first_row_def empty_store_def)

theorem lost_race_conflict_witness:
  "\<not> pending_row (row_id echo_task) one_running \<and>
   start_finish (Some echo_task) one_running =
     (Response (JText ''Task status was already changed'') 409, one_running) \<and>
   parse_response taskOrNull (fst (start_finish (Some echo_task) one_running)) =
     Inl (RequestFailed 409) \<and>
   fst (run_schedule [0, 0] (map Start [''t1''], empty_store)) ! 0 = Finished (Response JNull 200) \<and>
   parse_response taskOrNull (Response JNull 200) = Inr None \<and>
   tasks (store_at [0, 0] (map Start [''t1''], empty_store) 0) = [] \<and>
   select_pending ''t1'' empty_store = None"
proof -
  have a: "\<not> pending_row (row_id echo_task) one_running"
    by (simp add: pending_row_def one_running_def running_task_def)
  have b: "fst (run_schedule [0, 0] (map Start [''t1''], empty_store)) ! 0 =
             Finished (Response JNull 200)"
    unfolding alone_on_empty by simp
  have c: "parse_response taskOrNull (Response JNull 200) = Inr None"
    by (simp add: parse_response_def taskOrNull_def Response_def)
  have d: "tasks (store_at [0, 0] (map Start [''t1''], empty_store) 0) = []"
    by (simp add: store_at_def run_schedule_def empty_store_def)
  note w = lost_race_conflict [where r = echo_task and s = one_running and tg = "''t1''"]
  from w a have e: "start_finish (Some echo_task) one_running =
     (Response (JText ''Task status was already changed'') 409, one_running)"
    and f: "parse_response taskOrNull (fst (start_finish (Some echo_task) one_running)) =
     Inl (RequestFailed 409)"
    by blast+
  from lost_race_conflict [where s = empty_store and tg = "''t1''"]
  have "(select_pending ''t1'' empty_store = None) =
      (\<forall>x\<in>set (tasks empty_store). \<not> (tag x = ''t1'' \<and> status x = ''pending''))"
    by blast
  then have g: "select_pending ''t1'' empty_store = None"
    by (simp add: empty_store_def)
  from a b c d e f g show ?thesis by blast
qed

section \<open>The order of selection\<close>






section \<open>The start of a cycle\<close>


lemma startNextTask_task:
  assumes "startNextTask param net tg s = (Inr (Some t), s')"
  shows "\<exists>p. param tg = Some p \<and> start_task p s = (Response (JTask t) 200, s')"
proof -
  from assms have net: net
    by (auto simp: startNextTask_def request_def split: if_splits)
  from assms net obtain p where p: "param tg = Some p"
    by (cases "param tg")
      (auto simp: startNextTask_def request_def no_route_def parse_response_def Response_def)
  obtain resp s'' where st: "start_task p s = (resp, s'')" by (cases "start_task p s")
  with assms net p have pr: "parse_response taskOrNull resp = Inr (Some t)" and s'': "s'' = s'"
    by (auto simp: startNextTask_def request_def)
  from start_finish_cases [OF st [unfolded start_task_def]] pr
  have "resp = Response (JTask t) 200"
    by (auto simp: parse_response_def taskOrNull_def Response_def split: if_splits)
  with st s'' p show ?thesis by simp
qed

lemma runNextTask_started:
  assumes "runNextTask param cfg exec net tg s = (Inr (Some r), acts, s')"
  shows "\<exists>p. param tg = Some p \<and> start_task p s = (Response (JTask (task_r r)) 200, s') \<and>
         taskData r = task (task_r r) \<and> logs_r r = [] \<and> timers r \<and> \<not> exited r"
proof -
  obtain res s1 where c: "startNextTask param net tg s = (res, s1)"
    by (cases "startNextTask param net tg s")
  with assms obtain t where res: "res = Inr (Some t)"
    by (auto simp: runNextTask_def split: sum.splits option.splits prod.splits bool.splits)
  with assms c have r: "r = \<lparr>task_r = t, taskData = task t, logs_r = [], timers = True,
      exited = False\<rparr>" and "s' = s1"
    by (auto simp: runNextTask_def split: prod.splits bool.splits)
  with startNextTask_task [OF c [unfolded res]] show ?thesis by auto
qed

section \<open>Events of a run\<close>

lemma sendLogs_runner:
  "fst (snd (sendLogs now net (r, s))) = r\<lparr>logs_r := []\<rparr>"
  by (cases "logs_r r") (auto simp: sendLogs_def split: prod.splits)

lemma log_tick_runner:
  "task_r (fst (log_tick now net rs)) = task_r (fst rs) \<and>
   timers (fst (log_tick now net rs)) = timers (fst rs) \<and>
   taskData (fst (log_tick now net rs)) = taskData (fst rs)"
proof -
  obtain r s where rs: "rs = (r, s)" by (cases rs)
  obtain res r' s' where sl: "sendLogs now net (r, s) = (res, r', s')"
    by (cases "sendLogs now net (r, s)")
  from sendLogs_runner [of now net r s] sl have "r' = r\<lparr>logs_r := []\<rparr>" by simp
  with rs sl show ?thesis by (simp add: log_tick_def split: sum.splits)
qed

lemma on_event_keeps:
  assumes "\<not> is_close ev"
  shows "task_r (fst (on_event ev rs)) = task_r (fst rs) \<and>
         timers (fst (on_event ev rs)) = timers (fst rs) \<and>
         command (taskData (fst (on_event ev rs))) = command (taskData (fst rs)) \<and>
         exitCode (taskData (fst (on_event ev rs))) = exitCode (taskData (fst rs))"
proof (cases ev)
  case (LogTick now net)
  with log_tick_runner [of now net rs] show ?thesis by (simp add: on_event_def)
next
  case (HeartbeatTick now net)
  then show ?thesis
    by (cases rs) (auto simp: on_event_def heartbeat_def Let_def split: prod.splits sum.splits)
next
  case (Close c now n1 n2)
  with assms show ?thesis by (simp add: is_close_def)
qed (simp_all add: on_event_def)

lemma on_event_exited: "exited (fst rs) \<Longrightarrow> on_event ev rs = rs"
  by (simp add: on_event_def)

lemma run_events_exited: "exited (fst rs) \<Longrightarrow> run_events evs rs = rs"
  by (cases evs) simp_all

lemma run_events_step:
  "\<not> is_close ev \<Longrightarrow> run_events (ev # evs) rs = run_events evs (on_event ev rs)"
  by (cases ev) (simp_all add: is_close_def run_events_exited on_event_exited)

lemma run_events_append:
  "\<not> list_ex is_close evs \<Longrightarrow> run_events (evs @ es) rs = run_events es (run_events evs rs)"
proof (induction evs arbitrary: rs)
  case Nil
  then show ?case by simp
next
  case (Cons ev evs)
  then have nc: "\<not> is_close ev" and rest: "\<not> list_ex is_close evs" by simp_all
  show ?case
    using Cons.IH [OF rest] by (simp add: run_events_step [OF nc] del: run_events.simps)
qed

lemma run_events_keeps:
  "\<not> list_ex is_close evs \<Longrightarrow>
     task_r (fst (run_events evs rs)) = task_r (fst rs) \<and>
     timers (fst (run_events evs rs)) = timers (fst rs) \<and>
     command (taskData (fst (run_events evs rs))) = command (taskData (fst rs)) \<and>
     exitCode (taskData (fst (run_events evs rs))) = exitCode (taskData (fst rs))"
proof (induction evs arbitrary: rs)
  case Nil
  then show ?case by simp
next
  case (Cons ev evs)
  then have nc: "\<not> is_close ev" and rest: "\<not> list_ex is_close evs" by simp_all
  from Cons.IH [OF rest, of "on_event ev rs"] on_event_keeps [OF nc, of rs]
  show ?case by (simp add: run_events_step [OF nc] del: run_events.simps)
qed

lemma updateTask_store:
  assumes "status_enum (status t)"
  shows "snd (updateTask True t s) =
     s\<lparr>tasks := map (\<lambda>x. if row_id x = row_id t
                           then x\<lparr>tag := tag t, task := task t, status := status t\<rparr> else x) (tasks s)\<rparr>"
  using assms by (simp add: updateTask_def request_def put_task_def split: prod.splits)

lemma heartbeat_store:
  assumes "status (task_r r) = ''pending''"
  shows "tasks (snd (heartbeat now True (r, s))) =
     map (\<lambda>x. if row_id x = row_id (task_r r)
               then x\<lparr>tag := tag (task_r r), task := (taskData r)\<lparr>lastHeartbeat := Some now\<rparr>,
                      status := ''pending''\<rparr>
               else x) (tasks s)"
proof -
  let ?t = "(task_r r)\<lparr>task := (taskData r)\<lparr>lastHeartbeat := Some now\<rparr>\<rparr>"
  have "status_enum (status ?t)" using assms by (simp add: status_enum_def)
  from updateTask_store [OF this, of s] assms
  have "tasks (snd (updateTask True ?t s)) =
     map (\<lambda>x. if row_id x = row_id (task_r r)
               then x\<lparr>tag := tag (task_r r), task := (taskData r)\<lparr>lastHeartbeat := Some now\<rparr>,
                      status := ''pending''\<rparr>
               else x) (tasks s)"
    by simp
  then show ?thesis
    by (cases "updateTask True ?t s") (auto simp: heartbeat_def Let_def split: sum.splits)
qed

lemma heartbeat_alive:
  assumes "status (task_r r) = ''pending''" and "\<not> exited r"
  shows "\<not> exited (fst (heartbeat now True (r, s)))"
  using assms
  by (simp add: heartbeat_def updateTask_def request_def put_task_def status_enum_def
      parse_response_def okSchema_def Response_def Let_def)

lemmas eval_run = run_cycle_def runNextTask_def startNextTask_def request_def parse_response_def
  taskOrNull_def okSchema_def start_task_def start_finish_def select_pending_def first_row_def
  update_running_def Response_def on_event_def heartbeat_def log_tick_def on_close_def
  sendLogs_def updateTask_def appendLog_def put_task_def post_log_def status_enum_def
  one_pending_def echo_task_def no_preTask_def git_pull_def always_ok_def always_fail_def

text \<open>
  C2. The record a successful claim returns is the row as the SELECT read it: its status
  is pending, while the stored row is now running. The runner keeps that record for the
  whole run, so a heartbeat that reaches the worker at any point before the close, while
  the runner is still running and whatever the store holds by then, leaves every row of
  that id with status pending, with the tag, the command and the exit code of the
  claimed record, and with the new heartbeat; the runner runs on after it.
\<close>

theorem heartbeat_writes_pending:
  assumes "runNextTask param cfg exec net tg s = (Inr (Some r), acts, s1)"
    and "\<not> list_ex is_close evs"
    and "\<not> exited (fst (run_events evs (r, s2)))"
  shows "status (task_r r) = ''pending'' \<and>
         (task_r r)\<lparr>status := ''running''\<rparr> \<in> set (tasks s1) \<and>
         (\<forall>x\<in>set (tasks (snd (run_events (evs @ [HeartbeatTick now True]) (r, s2)))).
             row_id x = row_id (task_r r) \<longrightarrow>
               status x = ''pending'' \<and> tag x = tag (task_r r) \<and>
               command (task x) = command (task (task_r r)) \<and>
               exitCode (task x) = exitCode (task (task_r r)) \<and>
               lastHeartbeat (task x) = Some now) \<and>
         row_id ` set (tasks (snd (run_events (evs @ [HeartbeatTick now True]) (r, s2)))) =
           row_id ` set (tasks (snd (run_events evs (r, s2)))) \<and>
         \<not> exited (fst (run_events (evs @ [HeartbeatTick now True]) (r, s2)))"
proof -
  from runNextTask_started [OF assms(1)]
  obtain p where st: "start_task p s = (Response (JTask (task_r r)) 200, s1)" and tm: "timers r"
    and td: "taskData r = task (task_r r)" by auto
  from start_task_claims [OF st]
  have sel: "select_pending p s = Some (task_r r)"
    and s1: "s1 = snd (update_running (row_id (task_r r)) s)" by simp_all
  from select_pending_Some [OF sel]
  have mem: "task_r r \<in> set (tasks s)" and pend: "status (task_r r) = ''pending''" by simp_all
  have running: "(task_r r)\<lparr>status := ''running''\<rparr> \<in> set (tasks s1)"
    unfolding s1 by (rule update_running_marks [OF mem pend])
  obtain r' s' where mid: "run_events evs (r, s2) = (r', s')" by (cases "run_events evs (r, s2)")
  from run_events_keeps [OF assms(2), of "(r, s2)"] mid tm
  have keep: "task_r r' = task_r r" and tm': "timers r'"
    and cmd: "command (taskData r') = command (task (task_r r))"
    and ec: "exitCode (taskData r') = exitCode (task (task_r r))" by (simp_all add: td)
  from assms(3) mid have alive: "\<not> exited r'" by simp
  have hb: "run_events (evs @ [HeartbeatTick now True]) (r, s2) = heartbeat now True (r', s')"
    using run_events_append [OF assms(2), of "[HeartbeatTick now True]" "(r, s2)"] mid tm' alive
    by (simp add: on_event_def)
  have alive': "\<not> exited (fst (run_events (evs @ [HeartbeatTick now True]) (r, s2)))"
    unfolding hb using heartbeat_alive [of r' now s'] keep pend alive by simp
  note hb
  moreover let ?f = "\<lambda>x. if row_id x = row_id (task_r r)
               then x\<lparr>tag := tag (task_r r), task := (taskData r')\<lparr>lastHeartbeat := Some now\<rparr>,
                      status := ''pending''\<rparr>
               else x"
  have "tasks (snd (heartbeat now True (r', s'))) = map ?f (tasks s')"
    using heartbeat_store [of r' now s'] keep pend by simp
  ultimately have after:
    "tasks (snd (run_events (evs @ [HeartbeatTick now True]) (r, s2))) = map ?f (tasks s')"
    by simp
  have props: "\<forall>x\<in>set (map ?f (tasks s')). row_id x = row_id (task_r r) \<longrightarrow>
          status x = ''pending'' \<and> tag x = tag (task_r r) \<and>
          command (task x) = command (task (task_r r)) \<and>
          exitCode (task x) = exitCode (task (task_r r)) \<and>
          lastHeartbeat (task x) = Some now"
    using cmd ec by auto
  have comp: "row_id \<circ> ?f = row_id" by (rule ext) simp
  have "map row_id (map ?f (tasks s')) = map (row_id \<circ> ?f) (tasks s')"
    by (rule map_map)
  also have "\<dots> = map row_id (tasks s')"
    by (rule arg_cong [where f = "\<lambda>g. map g (tasks s')", OF comp])
  finally have "set (map row_id (map ?f (tasks s'))) = set (map row_id (tasks s'))"
    by (rule arg_cong)
  then have ids: "row_id ` set (map ?f (tasks s')) = row_id ` set (tasks s')"
    by (simp only: set_map)
  have s': "snd (run_events evs (r, s2)) = s'" by (simp add: mid)
  from props ids alive' show ?thesis
    unfolding after s' using pend running by (intro conjI)
qed

lemma claim_echo:
  "runNextTask Some no_preTask always_ok True ''t1'' one_pending =
     (Inr (Some fresh_runner), [ClaimNext ''t1'', Spawn [''echo'', ''hi'']], one_running)"
  by (simp add: eval_run fresh_runner_def one_running_def running_task_def)

theorem heartbeat_writes_pending_witness:
  "runNextTask Some no_preTask always_ok True ''t1'' one_pending =
     (Inr (Some fresh_runner), [ClaimNext ''t1'', Spawn [''echo'', ''hi'']], one_running) \<and>
   \<not> exited (fst (run_events [Stdout [104, 105, 10]] (fresh_runner, one_running))) \<and>
   status (task_r fresh_runner) = ''pending'' \<and>
   running_task \<in> set (tasks one_running) \<and>
   tasks (snd (run_events ([Stdout [104, 105, 10]] @ [HeartbeatTick 30000 True])
                 (fresh_runner, one_running))) =
     [echo_task\<lparr>task := (task echo_task)\<lparr>lastHeartbeat := Some 30000\<rparr>\<rparr>]"
proof -
  have nc: "\<not> list_ex is_close [Stdout [104, 105, 10]]" by (simp add: is_close_def)
  have alive: "\<not> exited (fst (run_events [Stdout [104, 105, 10]] (fresh_runner, one_running)))"
    by (simp add: on_event_def fresh_runner_def)
  note w = heartbeat_writes_pending [OF claim_echo nc alive, of 30000]
  from w have c1: "status (task_r fresh_runner) = ''pending''" by (rule conjunct1)
  from w have "(task_r fresh_runner)\<lparr>status := ''running''\<rparr> \<in> set (tasks one_running)"
    by (elim conjE)
  then have c2: "running_task \<in> set (tasks one_running)"
    by (simp add: fresh_runner_def running_task_def)
  have run: "tasks (snd (run_events ([Stdout [104, 105, 10]] @ [HeartbeatTick 30000 True])
                 (fresh_runner, one_running))) =
     [echo_task\<lparr>task := (task echo_task)\<lparr>lastHeartbeat := Some 30000\<rparr>\<rparr>]"
    by (simp add: eval_run fresh_runner_def one_running_def running_task_def)
  from claim_echo alive c1 c2 run show ?thesis by (intro conjI)
qed

section \<open>Flushing the buffer\<close>

text \<open>
  C3, as claimed, fails: with "hi" buffered and the worker out of reach, \<open>sendLogs\<close>
  throws, stores nothing and leaves the buffer empty; a later flush that gets through
  finds nothing to send, and the store still has no log of the output.
\<close>

theorem flush_loses_output_counterexample:
  "logs_r hi_buffered = [\<lparr>entry_type = ''stdout'', data = ''aGkK''\<rparr>] \<and>
   sendLogs 10000 False (hi_buffered, one_running) = (Inl FetchFailed, fresh_runner, one_running) \<and>
   sendLogs 20000 True (fresh_runner, one_running) = (Inr (), fresh_runner, one_running) \<and>
   logs one_running = []"
  by (simp add: sendLogs_def appendLog_def request_def hi_buffered_def fresh_runner_def
      one_running_def)

text \<open>
  C3, amended. In a log flush the buffer is copied into the chunk and emptied before
  \<open>appendLog\<close> is called: after every flush the buffer is empty, whether or not the
  append succeeded, and a flush of an empty buffer sends nothing. When the request does
  not get through, \<open>sendLogs\<close> throws, the store is unchanged and the entries are in
  neither; when it gets through and the task exists, the chunk is stored as a new row
  after those already there.
\<close>

theorem sendLogs_clears_before_append:
  "logs_r (fst (snd (sendLogs now net (r, s)))) = [] \<and>
   (logs_r r = [] \<longrightarrow> sendLogs now net (r, s) = (Inr (), r, s)) \<and>
   (logs_r r \<noteq> [] \<and> \<not> net \<longrightarrow>
      sendLogs now net (r, s) = (Inl FetchFailed, r\<lparr>logs_r := []\<rparr>, s)) \<and>
   (logs_r r \<noteq> [] \<and> net \<and> row_id (task_r r) \<in> row_id ` set (tasks s) \<longrightarrow>
      sendLogs now net (r, s) =
        (Inr (), r\<lparr>logs_r := []\<rparr>,
         s\<lparr>logs := logs s @ [\<lparr>log_id = max_id (map log_id (logs s)) + 1,
                                 task_id = row_id (task_r r),
                                 log = \<lparr>timestamp = now, entries = logs_r r\<rparr>\<rparr>]\<rparr>))"
proof (intro conjI impI)
  show "logs_r (fst (snd (sendLogs now net (r, s)))) = []"
    by (simp add: sendLogs_runner)
next
  assume "logs_r r = []"
  then show "sendLogs now net (r, s) = (Inr (), r, s)"
    by (simp add: sendLogs_def)
next
  assume "logs_r r \<noteq> [] \<and> \<not> net"
  then show "sendLogs now net (r, s) = (Inl FetchFailed, r\<lparr>logs_r := []\<rparr>, s)"
    by (simp add: sendLogs_def appendLog_def request_def)
next
  assume "logs_r r \<noteq> [] \<and> net \<and> row_id (task_r r) \<in> row_id ` set (tasks s)"
  then show "sendLogs now net (r, s) =
        (Inr (), r\<lparr>logs_r := []\<rparr>,
         s\<lparr>logs := logs s @ [\<lparr>log_id = max_id (map log_id (logs s)) + 1,
                                 task_id = row_id (task_r r),
                                 log = \<lparr>timestamp = now, entries = logs_r r\<rparr>\<rparr>]\<rparr>)"
    by (simp add: sendLogs_def appendLog_def request_def post_log_def parse_response_def
        okSchema_def Response_def)
qed

theorem sendLogs_clears_before_append_witness:
  "logs_r hi_buffered \<noteq> [] \<and> logs_r fresh_runner = [] \<and>
   sendLogs 20000 True (fresh_runner, one_running) = (Inr (), fresh_runner, one_running) \<and>
   logs_r (fst (snd (sendLogs 10000 False (hi_buffered, one_running)))) = [] \<and>
   sendLogs 10000 False (hi_buffered, one_running) =
     (Inl FetchFailed, hi_buffered\<lparr>logs_r := []\<rparr>, one_running) \<and>
   row_id (task_r hi_buffered) \<in> row_id ` set (tasks one_running) \<and>
   sendLogs 10000 True (hi_buffered, one_running) =
     (Inr (), hi_buffered\<lparr>logs_r := []\<rparr>,
      one_running\<lparr>logs := [\<lparr>log_id = 1, task_id = 1,
                               log = \<lparr>timestamp = 10000, entries = logs_r hi_buffered\<rparr>\<rparr>]\<rparr>)"
proof -
  have a: "logs_r hi_buffered \<noteq> []" by (simp add: hi_buffered_def)
  have b: "row_id (task_r hi_buffered) \<in> row_id ` set (tasks one_running)"
    by (simp add: hi_buffered_def fresh_runner_def one_running_def running_task_def)
  have c: "row_id (task_r hi_buffered) = 1" "logs one_running = []"
    by (simp_all add: hi_buffered_def fresh_runner_def one_running_def echo_task_def)
  have e: "logs_r fresh_runner = []" by (simp add: fresh_runner_def)
  from sendLogs_clears_before_append [of 20000 True fresh_runner one_running] e
  have idle: "sendLogs 20000 True (fresh_runner, one_running) = (Inr (), fresh_runner, one_running)"
    by blast
  note lost = sendLogs_clears_before_append [of 10000 False hi_buffered one_running]
  note kept = sendLogs_clears_before_append [of 10000 True hi_buffered one_running]
  from lost have "logs_r (fst (snd (sendLogs 10000 False (hi_buffered, one_running)))) = []"
    by (rule conjunct1)
  moreover from lost a
  have "sendLogs 10000 False (hi_buffered, one_running) =
     (Inl FetchFailed, hi_buffered\<lparr>logs_r := []\<rparr>, one_running)"
    by blast
  moreover from kept a b
  have "sendLogs 10000 True (hi_buffered, one_running) =
     (Inr (), hi_buffered\<lparr>logs_r := []\<rparr>,
      one_running\<lparr>logs := logs one_running @ [\<lparr>log_id = max_id (map log_id (logs one_running)) + 1,
                               task_id = row_id (task_r hi_buffered),
                               log = \<lparr>timestamp = 10000, entries = logs_r hi_buffered\<rparr>\<rparr>]\<rparr>)"
    by blast
  then have "sendLogs 10000 True (hi_buffered, one_running) =
     (Inr (), hi_buffered\<lparr>logs_r := []\<rparr>,
      one_running\<lparr>logs := [\<lparr>log_id = 1, task_id = 1,
                               log = \<lparr>timestamp = 10000, entries = logs_r hi_buffered\<rparr>\<rparr>]\<rparr>)"
    by (simp add: c)
  ultimately show ?thesis using a b e idle by blast
qed

section \<open>Pre-task commands\<close>






section \<open>The record a run leaves behind\<close>

text \<open>
  What the close handler writes after the child exited with code 0, when the final flush
  does not throw and the update gets through: status done, exit code 0, and the
  heartbeat as the last tick left it.
\<close>

lemma on_close_record:
  assumes "logs_r r = [] \<or> (net_log \<and> row_id (task_r r) \<in> row_id ` set (tasks s))"
  shows "\<forall>x\<in>set (tasks (snd (on_close (Some 0) now net_log True (r, s)))).
           row_id x = row_id (task_r r) \<longrightarrow>
             status x = ''done'' \<and> exitCode (task x) = Some 0 \<and>
             lastHeartbeat (task x) = lastHeartbeat (taskData r)"
proof -
  let ?r0 = "r\<lparr>timers := False\<rparr>"
  obtain fl r1 s1 where fl: "(if length (logs_r ?r0) > 0 then sendLogs now net_log (?r0, s)
                               else (Inr (), ?r0, s)) = (fl, r1, s1)"
    by (metis prod_cases3)
  have ok: "fl = Inr ()" and r1: "r1 = ?r0\<lparr>logs_r := []\<rparr>" and t1: "tasks s1 = tasks s"
    using fl assms
    by (auto simp: sendLogs_def appendLog_def request_def post_log_def parse_response_def
        okSchema_def Response_def split: if_splits)
  let ?r2 = "r1\<lparr>taskData := (taskData r1)\<lparr>exitCode := Some 0\<rparr>,
                 task_r := (task_r r1)\<lparr>status := ''done''\<rparr>\<rparr>"
  let ?t = "(task_r ?r2)\<lparr>task := taskData ?r2\<rparr>"
  have "status_enum (status ?t)" by (simp add: status_enum_def)
  from updateTask_store [OF this, of s1]
  have "tasks (snd (updateTask True ?t s1)) =
     map (\<lambda>x. if row_id x = row_id (task_r r)
               then x\<lparr>tag := tag (task_r r), task := (taskData r)\<lparr>exitCode := Some 0\<rparr>,
                      status := ''done''\<rparr>
               else x) (tasks s)"
    by (simp add: r1 t1)
  moreover have "snd (on_close (Some 0) now net_log True (r, s)) = snd (updateTask True ?t s1)"
    using fl ok by (auto simp: on_close_def Let_def split: prod.splits sum.splits)
  ultimately show ?thesis by auto
qed

text \<open>
  After any other exit, the runner ends with the store as it was: the task is never
  stored as done.
\<close>

lemma on_close_failed:
  "exit_code \<noteq> Some 0 \<Longrightarrow>
     on_close exit_code now net_log net_upd (r, s) = (r\<lparr>timers := False, exited := True\<rparr>, s)"
  by (simp add: on_close_def)

lemma heartbeat_then_close:
  "run_cycle Some no_preTask always_ok True ''t1''
     [HeartbeatTick 30000 True, Close (Some 0) 31000 True True] one_sleeping =
   one_sleeping\<lparr>tasks := [\<lparr>row_id = 1, tag = ''t1'',
       task = \<lparr>command = [''sleep'', ''31''], exitCode = Some 0, lastHeartbeat = Some 30000\<rparr>,
       status = ''done''\<rparr>]\<rparr>"
  by (simp add: eval_run one_sleeping_def sleep_task_def)

text \<open>
  C6, on the code: a task that runs for 31 seconds, past one heartbeat, and exits with
  code 0 is stored as done with the heartbeat still present, and \<open>list\<close> shows that
  record as stale once the heartbeat is a minute old. While the task runs, the same
  heartbeat has stored it as pending with a heartbeat.
\<close>

theorem finalize_keeps_heartbeat:
  "find_task 1 (run_cycle Some no_preTask always_ok True ''t1''
                  [HeartbeatTick 30000 True, Close (Some 0) 31000 True True] one_sleeping) =
     Some \<lparr>row_id = 1, tag = ''t1'',
           task = \<lparr>command = [''sleep'', ''31''], exitCode = Some 0, lastHeartbeat = Some 30000\<rparr>,
           status = ''done''\<rparr> \<and>
   list_status 100000 \<lparr>row_id = 1, tag = ''t1'',
           task = \<lparr>command = [''sleep'', ''31''], exitCode = Some 0, lastHeartbeat = Some 30000\<rparr>,
           status = ''done''\<rparr> = ''stale'' \<and>
   find_task 1 (run_cycle Some no_preTask always_ok True ''t1'' [HeartbeatTick 30000 True]
                  one_sleeping) =
     Some \<lparr>row_id = 1, tag = ''t1'',
           task = \<lparr>command = [''sleep'', ''31''], exitCode = None, lastHeartbeat = Some 30000\<rparr>,
           status = ''pending''\<rparr>"
proof (intro conjI)
  show "find_task 1 (run_cycle Some no_preTask always_ok True ''t1''
                  [HeartbeatTick 30000 True, Close (Some 0) 31000 True True] one_sleeping) =
     Some \<lparr>row_id = 1, tag = ''t1'',
           task = \<lparr>command = [''sleep'', ''31''], exitCode = Some 0, lastHeartbeat = Some 30000\<rparr>,
           status = ''done''\<rparr>"
    unfolding heartbeat_then_close by (simp add: find_task_def)
  show "list_status 100000 \<lparr>row_id = 1, tag = ''t1'',
           task = \<lparr>command = [''sleep'', ''31''], exitCode = Some 0, lastHeartbeat = Some 30000\<rparr>,
           status = ''done''\<rparr> = ''stale''"
    by (simp add: list_status_def STALE_THRESHOLD_MS_def)
  show "find_task 1 (run_cycle Some no_preTask always_ok True ''t1'' [HeartbeatTick 30000 True]
                  one_sleeping) =
     Some \<lparr>row_id = 1, tag = ''t1'',
           task = \<lparr>command = [''sleep'', ''31''], exitCode = None, lastHeartbeat = Some 30000\<rparr>,
           status = ''pending''\<rparr>"
    by (simp add: eval_run find_task_def one_sleeping_def sleep_task_def)
qed

section \<open>Requeue\<close>

text \<open>
  \<open>GET /tasks/:id\<close> answers with an array, which the client's \<open>taskSchema\<close> rejects: the
  command throws before any update is sent, for every id and every store. The page's
  requeue fails on the same array.
\<close>

lemma requeue_throws:
  "requeue net i s = (Inl (if net then ParsingFailed else FetchFailed), s)"
  by (simp add: requeue_def getTaskById_def request_def get_task_def parse_response_def
      taskSchema_def Response_def)

lemma handleRequeue_throws: "handleRequeue i s = (Inl SyntaxError, s)"
  by (simp add: handleRequeue_def get_task_def Response_def)

text \<open>
  C7, on the code: requeueing the finished example task throws "Response parsing failed"
  and leaves the store as it was, the task done with its exit code; so does the page.
\<close>

theorem requeue_failing_input:
  "requeue True 1 one_done = (Inl ParsingFailed, one_done) \<and>
   handleRequeue 1 one_done = (Inl SyntaxError, one_done) \<and>
   find_task 1 one_done = Some done_task \<and>
   status done_task = ''done'' \<and> exitCode (task done_task) = Some 0"
  by (simp add: requeue_throws handleRequeue_throws find_task_def one_done_def done_task_def
      echo_task_def)

section \<open>Replay\<close>

lemma write_entries_extends: "prefix tty (snd (write_entries es tty))"
proof (induction es arbitrary: tty)
  case Nil
  show ?case by simp
next
  case (Cons e es)
  show ?case
  proof (cases "decodeBase64 (data e)")
    case None
    then show ?thesis by simp
  next
    case (Some bs)
    have "prefix tty (tty @ bs)" by simp
    also have "prefix (tty @ bs) (snd (write_entries es (tty @ bs)))" by (rule Cons.IH)
    finally show ?thesis using Some by simp
  qed
qed

lemma write_logs_extends: "prefix tty (snd (write_logs ls tty))"
proof (induction ls arbitrary: tty)
  case Nil
  show ?case by simp
next
  case (Cons l ls)
  obtain res tty' where w: "write_entries (entries l) tty = (res, tty')"
    by (cases "write_entries (entries l) tty")
  from write_entries_extends [of tty "entries l"] w have p: "prefix tty tty'" by simp
  show ?case
  proof (cases res)
    case (Inl e)
    with w p show ?thesis by simp
  next
    case (Inr u)
    from p Cons.IH [of tty'] have "prefix tty (snd (write_logs ls tty'))"
      by (rule prefix_order.trans)
    with w Inr show ?thesis by simp
  qed
qed

lemma write_logs_append:
  "write_logs (xs @ ys) tty =
     (case write_logs xs tty of
        (Inl e, tty') \<Rightarrow> (Inl e, tty')
      | (Inr u, tty') \<Rightarrow> write_logs ys tty')"
  by (induction xs arbitrary: tty) (auto split: prod.splits sum.splits)

lemma slice0_Suc:
  assumes "0 \<le> k" and "k < int (length xs)"
  shows "slice0 (k + 1) xs = slice0 k xs @ [xs ! nat k]"
proof -
  from assms have "slice0 (k + 1) xs = take (Suc (nat k)) xs"
    by (simp add: slice0_def nat_add_distrib)
  moreover from assms have "slice0 k xs = take (nat k) xs"
    by (simp add: slice0_def)
  moreover from assms have "nat k < length xs" by simp
  ultimately show ?thesis by (simp add: take_Suc_conv_app_nth)
qed

text \<open>
  C8. For every list of stored chunks and every position \<open>k\<close> with \<open>0 \<le> k < N\<close>, the
  bytes on the terminal after the replay at \<open>k\<close> are a prefix of those after the replay
  at \<open>k + 1\<close>; and a replay does not depend on what the terminal showed before, so two
  replays of one position over the same chunks write the same bytes.
\<close>

theorem replay_prefix:
  assumes "0 \<le> k" and "k < int (length chunks)"
  shows "prefix (replay chunks k) (replay chunks (k + 1)) \<and>
         replayLogs tty1 chunks k = replayLogs tty2 chunks k"
proof
  obtain res out where w: "write_logs (slice0 k chunks) [] = (res, out)"
    by (cases "write_logs (slice0 k chunks) []")
  have k: "replay chunks k = out" using w by (simp add: replay_def replayLogs_def)
  have "replay chunks (k + 1) = snd (write_logs (slice0 k chunks @ [chunks ! nat k]) [])"
    by (simp add: replay_def replayLogs_def slice0_Suc [OF assms])
  also have "\<dots> = (case res of Inl e \<Rightarrow> out | Inr u \<Rightarrow> snd (write_logs [chunks ! nat k] out))"
    by (simp add: write_logs_append w split: sum.splits)
  finally have "prefix out (replay chunks (k + 1))"
    using write_logs_extends [of out "[chunks ! nat k]"] by (simp split: sum.splits)
  with k show "prefix (replay chunks k) (replay chunks (k + 1))" by simp
  show "replayLogs tty1 chunks k = replayLogs tty2 chunks k"
    by (simp add: replayLogs_def)
qed

lemma decode_hi: "decodeBase64 ''aGkK'' = Some [104, 105, 10]"
  by (simp add: decodeBase64_def atob_def strip_padding_def ascii_whitespace_def b64chars_def)

lemma decode_bye: "decodeBase64 ''Ynll'' = Some [98, 121, 101]"
  by (simp add: decodeBase64_def atob_def strip_padding_def ascii_whitespace_def b64chars_def)

theorem replay_prefix_witness:
  "(0::int) \<le> 1 \<and> (1::int) < int (length [hi_chunk, bye_chunk]) \<and>
   replay [hi_chunk, bye_chunk] 1 = [104, 105, 10] \<and>
   replay [hi_chunk, bye_chunk] (1 + 1) = [104, 105, 10, 98, 121, 101] \<and>
   prefix (replay [hi_chunk, bye_chunk] 1) (replay [hi_chunk, bye_chunk] (1 + 1)) \<and>
   replayLogs [0, 1] [hi_chunk, bye_chunk] 1 = replayLogs [] [hi_chunk, bye_chunk] 1"
proof -
  have h: "(0::int) \<le> 1" "(1::int) < int (length [hi_chunk, bye_chunk])" by simp_all
  note w = replay_prefix [OF h, of "[0, 1]" "[]"]
  have a: "replay [hi_chunk, bye_chunk] 1 = [104, 105, 10]"
    by (simp add: replay_def replayLogs_def slice0_def hi_chunk_def decode_hi)
  have b: "replay [hi_chunk, bye_chunk] (1 + 1) = [104, 105, 10, 98, 121, 101]"
    by (simp add: replay_def replayLogs_def slice0_def hi_chunk_def bye_chunk_def decode_hi decode_bye)
  from h a b w show ?thesis by (intro conjI) (elim conjE, assumption)+
qed

section \<open>Order of the fetched logs\<close>

text \<open>
  The rows of \<open>logs\<close> are in ascending id order in every store the worker can produce:
  an insert takes an id above all present ones and goes last, and deletions keep the
  order of what remains.
\<close>

lemma le_max_id: "x \<in> set xs \<Longrightarrow> x \<le> max_id xs"
  by (induction xs) auto

lemma post_log_ascending:
  assumes "logs_ascending s"
  shows "logs_ascending (snd (post_log tid l s))"
proof -
  have "\<forall>x\<in>set (map log_id (logs s)). x < max_id (map log_id (logs s)) + 1"
    using le_max_id [of _ "map log_id (logs s)"] by force
  with assms show ?thesis
    by (simp add: logs_ascending_def post_log_def sorted_wrt_append)
qed

lemma delete_where_ascending:
  assumes "logs_ascending s"
  shows "logs_ascending (snd (delete_where P s))"
proof -
  from assms have "sorted_wrt (\<lambda>a b. log_id a < log_id b) (logs s)"
    by (simp add: logs_ascending_def sorted_wrt_map)
  then have "sorted_wrt (\<lambda>a b. log_id a < log_id b)
               (filter (\<lambda>l. task_id l \<notin> row_id ` set (filter P (tasks s))) (logs s))"
    by (rule sorted_wrt_filter)
  then show ?thesis
    by (simp add: logs_ascending_def delete_where_def sorted_wrt_map Let_def)
qed

lemma delete_bulk_store: "snd (delete_bulk P s) = snd (delete_where P s)"
  by (simp add: delete_bulk_def split: prod.splits)

lemma start_task_logs: "logs (snd (start_task tg s)) = logs s"
  by (simp add: start_task_def start_finish_def update_running_def split: option.splits)

lemma route_ascending:
  assumes "logs_ascending s"
  shows "logs_ascending (snd (route req s))"
proof (cases req)
  case (PostLog tid l)
  with post_log_ascending [OF assms] show ?thesis by (simp add: route_def)
next
  case (StartTask tg)
  with assms start_task_logs [of tg s] show ?thesis
    by (simp add: route_def logs_ascending_def)
next
  case (PostTask tg td st)
  with assms show ?thesis
    by (simp add: route_def post_task_def logs_ascending_def Let_def)
next
  case (PutTask i tg td st)
  with assms show ?thesis
    by (simp add: route_def put_task_def logs_ascending_def)
next
  case (DeleteTask i)
  with delete_where_ascending [OF assms] show ?thesis
    by (simp add: route_def delete_task_def)
qed (use assms delete_where_ascending [OF assms] in
      \<open>simp_all add: route_def delete_bulk_store get_tags_def get_tasks_def get_tasks_tag_def
         get_task_def get_logs_def\<close>)

lemma serve_ascending: "logs_ascending s \<Longrightarrow> logs_ascending (serve reqs s)"
  unfolding serve_def
  by (induction reqs arbitrary: s) (simp_all add: route_ascending)

text \<open>
  C9. In every store reached from the empty one by requests to the worker,
  \<open>GET /logs/:task_id\<close> answers with the chunks of exactly the rows of that task, in
  ascending order of their ids, which is the order in which they were inserted.
\<close>

theorem get_logs_ordered:
  "get_logs tid (serve reqs empty_store) =
     (Response (JLogs (map log (select_logs tid (serve reqs empty_store)))) 200,
      serve reqs empty_store) \<and>
   set (select_logs tid (serve reqs empty_store)) =
     {l \<in> set (logs (serve reqs empty_store)). task_id l = tid} \<and>
   sorted_wrt (<) (map log_id (select_logs tid (serve reqs empty_store))) \<and>
   subseq (select_logs tid (serve reqs empty_store)) (logs (serve reqs empty_store))"
proof -
  let ?s = "serve reqs empty_store"
  have "logs_ascending empty_store" by (simp add: logs_ascending_def empty_store_def)
  then have "logs_ascending ?s" by (rule serve_ascending)
  then have "sorted_wrt (\<lambda>a b. log_id a < log_id b) (logs ?s)"
    by (simp add: logs_ascending_def sorted_wrt_map)
  then have "sorted_wrt (\<lambda>a b. log_id a < log_id b) (filter (\<lambda>l. task_id l = tid) (logs ?s))"
    by (rule sorted_wrt_filter)
  then have "sorted_wrt (<) (map log_id (select_logs tid ?s))"
    by (simp add: select_logs_def sorted_wrt_map)
  moreover have "set (select_logs tid ?s) = {l \<in> set (logs ?s). task_id l = tid}"
    by (simp add: select_logs_def)
  moreover have "subseq (select_logs tid ?s) (logs ?s)"
    by (simp add: select_logs_def)
  ultimately show ?thesis by (simp add: get_logs_def)
qed

lemma two_logs:
  "serve [PostTask ''t1'' (task echo_task) ''pending'', PostTask ''t1'' (task echo_task) ''pending'',
          PostLog 1 hi_chunk, PostLog 2 hi_chunk, PostLog 1 bye_chunk] empty_store =
     \<lparr>tasks = [echo_task, echo_task\<lparr>row_id := 2\<rparr>], tasks_seq = 2,
      logs = [\<lparr>log_id = 1, task_id = 1, log = hi_chunk\<rparr>,
              \<lparr>log_id = 2, task_id = 2, log = hi_chunk\<rparr>,
              \<lparr>log_id = 3, task_id = 1, log = bye_chunk\<rparr>]\<rparr>"
  by (simp add: serve_def route_def post_task_def post_log_def status_enum_def Response_def
      empty_store_def echo_task_def Let_def)

theorem get_logs_ordered_witness:
  "fst (get_logs 1 (serve [PostTask ''t1'' (task echo_task) ''pending'',
                           PostTask ''t1'' (task echo_task) ''pending'',
                           PostLog 1 hi_chunk, PostLog 2 hi_chunk, PostLog 1 bye_chunk] empty_store)) =
     Response (JLogs [hi_chunk, bye_chunk]) 200"
proof -
  let ?reqs = "[PostTask ''t1'' (task echo_task) ''pending'', PostTask ''t1'' (task echo_task) ''pending'',
                PostLog 1 hi_chunk, PostLog 2 hi_chunk, PostLog 1 bye_chunk]"
  from get_logs_ordered [of 1 ?reqs]
  have "fst (get_logs 1 (serve ?reqs empty_store)) =
          Response (JLogs (map log (select_logs 1 (serve ?reqs empty_store)))) 200"
    by simp
  also have "select_logs 1 (serve ?reqs empty_store) =
      [\<lparr>log_id = 1, task_id = 1, log = hi_chunk\<rparr>, \<lparr>log_id = 3, task_id = 1, log = bye_chunk\<rparr>]"
    unfolding two_logs by (simp add: select_logs_def)
  finally show ?thesis by simp
qed

end
